theory Spec2Isabelle
  imports Main "HOL-Library.Word"
begin

unbundle bit_operations_syntax

section \<open>The ledger layer of python-bitcoin: \<open>bitcoin/ledger.py\<close>\<close>

text \<open>
  The module defines three serializable types: \<open>UnspentTransaction\<close> (a sorted mapping
  from output index to output, with the metadata \<open>version\<close>, \<open>height\<close> and
  \<open>reference_height\<close>), \<open>ContractOutPoint\<close> and \<open>OutputData\<close>. Python integers are
  modelled as \<open>int\<close>, byte strings as lists of 8-bit words, a stream (\<open>file_\<close>) as the
  list of bytes not yet read, and an exception as the left summand of a result.
\<close>

subsection \<open>Bytes, errors and sequencing\<close>

type_synonym byte = "8 word"
type_synonym bytes = "byte list"

text \<open>
  \<open>TypeError\<close> is what \<open>ledger.py\<close> raises itself (in \<open>__init__\<close> and in \<open>serialize\<close>),
  and what a \<open>recordtype\<close> constructor raises for a missing field. \<open>ValueError\<close> is
  Python's "negative shift count" of \<open>1 << idx\<close>. \<open>CodecError\<close> stands for any exception
  raised inside one of the imported codecs, and \<open>MappingError\<close> for any exception raised
  inside the constructor of the imported \<open>sorteddict\<close>; both propagate unchanged through
  this module.
\<close>

datatype error = TypeError | ValueError | CodecError | MappingError

definition seq :: "error + 'a \<Rightarrow> ('a \<Rightarrow> error + 'b) \<Rightarrow> error + 'b" where
  "seq r f = (case r of Inl e \<Rightarrow> Inl e | Inr x \<Rightarrow> f x)"

definition call :: "'a option \<Rightarrow> error + 'a" where
  "call r = (case r of None \<Rightarrow> Inl CodecError | Some x \<Rightarrow> Inr x)"

subsection \<open>The imported codecs and the mapping constructor\<close>

text \<open>
  \<open>ledger.py\<close> imports \<open>serialize_varint\<close>, \<open>deserialize_varint\<close>, \<open>serialize_leint\<close>,
  \<open>deserialize_leint\<close> (from \<open>.serialize\<close>), \<open>compress_amount\<close>, \<open>decompress_amount\<close>
  (from \<open>.tools\<close>), \<open>ScriptPickler\<close> (from \<open>.script\<close>) and \<open>hash256\<close> (from \<open>.hash\<close>);
  a contract object brings its own \<open>serialize()\<close> method. They are parameters of the
  model. An encoder returns \<open>None\<close> where the Python function raises. A decoder takes the
  unread bytes and returns the decoded value with the bytes left, or \<open>None\<close> where it
  raises. The integer decoders are unsigned, so they return a \<open>nat\<close>.

  \<open>sorteddict\<close> (from \<open>blist\<close>) is the superclass of \<open>UnspentTransaction\<close>. Its constructor
  takes keyword arguments as entries with string keys. Whether it can order such a key
  with the integer keys of its positional argument depends on the Python at hand, so this
  is a parameter too: \<open>sorteddict_keywords keys kw\<close> tells whether the constructor returns
  when the positional content has the keys \<open>keys\<close> and the keyword arguments are \<open>kw\<close>
  (it is asked only for a non-empty \<open>kw\<close>).
\<close>

record 'c codecs =
  serialize_varint :: "int \<Rightarrow> bytes option"
  deserialize_varint :: "bytes \<Rightarrow> (nat \<times> bytes) option"
  serialize_leint :: "int \<Rightarrow> bytes option"
  deserialize_leint :: "bytes \<Rightarrow> int \<Rightarrow> (nat \<times> bytes) option"
  compress_amount :: "int \<Rightarrow> int option"
  decompress_amount :: "int \<Rightarrow> int option"
  pickler_dumps :: "'c \<Rightarrow> bytes option"
  pickler_load :: "bytes \<Rightarrow> ('c \<times> bytes) option"
  contract_serialize :: "'c \<Rightarrow> 'c option"
  hash256_serialize :: "int \<Rightarrow> bytes option"
  hash256_deserialize :: "bytes \<Rightarrow> (int \<times> bytes) option"
  sorteddict_keywords :: "int list \<Rightarrow> (string \<times> int) list \<Rightarrow> bool"

subsection \<open>Outputs and the sorted mapping\<close>

record 'c Output =
  amount :: int
  contract :: "'c"

text \<open>
  \<open>blist.sorteddict\<close>: a dictionary that iterates in ascending key order. It is an
  association list kept strictly ascending by key; \<open>sd_setitem\<close> is \<open>d[k] = v\<close>, and
  \<open>sorteddict\<close> builds the mapping from a sequence of pairs as \<open>dict.update\<close> does
  (a later pair replaces an earlier one with the same key).
\<close>

fun sd_setitem :: "int \<Rightarrow> 'v \<Rightarrow> (int \<times> 'v) list \<Rightarrow> (int \<times> 'v) list" where
  "sd_setitem k v [] = [(k, v)]"
| "sd_setitem k v ((k', v') # d) =
     (if k < k' then (k, v) # (k', v') # d
      else if k = k' then (k, v) # d
      else (k', v') # sd_setitem k v d)"

definition sorteddict :: "(int \<times> 'v) list \<Rightarrow> (int \<times> 'v) list" where
  "sorteddict items = fold (\<lambda>(k, v) d. sd_setitem k v d) items []"

subsection \<open>UnspentTransaction\<close>

record 'c UnspentTransaction =
  entries :: "(int \<times> 'c Output) list"
  version :: int
  height :: int
  reference_height :: int

text \<open>
  A \<open>core.Transaction\<close> as the constructor sees it: its outputs, and the three attributes
  read with \<open>getattr(other, name, default)\<close>, \<open>None\<close> where the object has no such
  attribute.
\<close>

record 'c Transaction =
  outputs :: "'c Output list"
  tx_version :: "int option"
  tx_height :: "int option"
  tx_reference_height :: "int option"

text \<open>
  The positional argument \<open>args[0]\<close> is either a sequence of (index, output) pairs or
  another \<open>UnspentTransaction\<close>; only the latter has all of the attributes \<open>version\<close>,
  \<open>height\<close> and \<open>reference_height\<close>. The keyword arguments the constructor looks at are
  \<open>transaction\<close>, \<open>version\<close>, \<open>height\<close> and \<open>reference_height\<close>; \<open>None\<close> is an absent
  keyword. The constructor tests whether the key \<open>transaction\<close> is present, and Python's
  \<open>None\<close> is the value it takes for an absent one, so a present keyword \<open>transaction\<close>
  carries either Python's \<open>None\<close> (\<open>Some None\<close>) or a transaction (\<open>Some (Some t)\<close>). The
  other three keywords carry integers.
\<close>

datatype 'c arg = Items "(int \<times> 'c Output) list" | Instance "'c UnspentTransaction"

record 'c kwargs =
  kw_transaction :: "'c Transaction option option"
  kw_version :: "int option"
  kw_height :: "int option"
  kw_reference_height :: "int option"

datatype 'c source = FromInstance "'c UnspentTransaction" | FromTransaction "'c Transaction"

fun getattr_version :: "'c source option \<Rightarrow> int \<Rightarrow> int" where
  "getattr_version None d = d"
| "getattr_version (Some (FromInstance u)) d = version u"
| "getattr_version (Some (FromTransaction t)) d = (case tx_version t of None \<Rightarrow> d | Some v \<Rightarrow> v)"

fun getattr_height :: "'c source option \<Rightarrow> int \<Rightarrow> int" where
  "getattr_height None d = d"
| "getattr_height (Some (FromInstance u)) d = height u"
| "getattr_height (Some (FromTransaction t)) d = (case tx_height t of None \<Rightarrow> d | Some v \<Rightarrow> v)"

fun getattr_reference_height :: "'c source option \<Rightarrow> int \<Rightarrow> int" where
  "getattr_reference_height None d = d"
| "getattr_reference_height (Some (FromInstance u)) d = reference_height u"
| "getattr_reference_height (Some (FromTransaction t)) d =
     (case tx_reference_height t of None \<Rightarrow> d | Some v \<Rightarrow> v)"

text \<open>\<open>enumerate(transaction.outputs)\<close>, from index \<open>i\<close>.\<close>

fun enumerate_from :: "int \<Rightarrow> 'a list \<Rightarrow> (int \<times> 'a) list" where
  "enumerate_from i [] = []"
| "enumerate_from i (x # xs) = (i, x) # enumerate_from (i + 1) xs"

text \<open>
  \<open>UnspentTransaction.__init__\<close>. The result is the constructed object together with
  the keyword arguments that were left in \<open>kwargs\<close> when the superclass constructor
  \<open>sorteddict.__init__(*args, **kwargs)\<close> was called (from the four keywords modelled,
  only \<open>reference_height\<close> can be left). \<open>entries\<close> holds the integer-keyed content of
  the mapping. An exception of the superclass constructor, which can only come from the
  keyword arguments left, ends the construction.
\<close>

definition UnspentTransaction_init ::
    "'c codecs \<Rightarrow> 'c arg option \<Rightarrow> 'c kwargs
       \<Rightarrow> error + ('c UnspentTransaction \<times> (string \<times> int) list)" where
  "UnspentTransaction_init cs args kwargs =
    (let other = (case args of Some (Instance u) \<Rightarrow> Some (FromInstance u) | _ \<Rightarrow> None);
         a = (kw_transaction kwargs \<noteq> None);
         b = (other \<noteq> None);
         c = (kw_version kwargs \<noteq> None \<or> kw_reference_height kwargs \<noteq> None)
     in if (of_bool a + of_bool b + of_bool c :: nat) \<ge> 2 then Inl TypeError
        else
          let transaction = (case kw_transaction kwargs of None \<Rightarrow> None | Some t \<Rightarrow> t);
              other = (case other of None \<Rightarrow> map_option FromTransaction transaction
                       | Some s \<Rightarrow> Some s);
              version = (case kw_version kwargs of Some v \<Rightarrow> v
                         | None \<Rightarrow> getattr_version other 1);
              height = (case kw_height kwargs of Some h \<Rightarrow> h
                        | None \<Rightarrow> getattr_height other 0);
              reference_height = getattr_reference_height other 0;
              reference_height =
                (if version = 2
                 then (case kw_reference_height kwargs of Some r \<Rightarrow> r
                       | None \<Rightarrow> reference_height)
                 else reference_height);
              forwarded =
                (if version = 2 then []
                 else (case kw_reference_height kwargs of Some r \<Rightarrow> [(''reference_height'', r)]
                       | None \<Rightarrow> []));
              self = (case args of None \<Rightarrow> [] | Some (Items items) \<Rightarrow> sorteddict items
                      | Some (Instance u) \<Rightarrow> entries u)
          in if forwarded \<noteq> [] \<and> \<not> sorteddict_keywords cs (map fst self) forwarded
             then Inl MappingError
             else
               let self = (case transaction of
                             Some t \<Rightarrow> (if self = [] \<and> forwarded = []
                                        then fold (\<lambda>(idx, output) d. sd_setitem idx output d)
                                               (enumerate_from 0 (outputs t)) self
                                        else self)
                           | None \<Rightarrow> self)
               in Inr (\<lparr>entries = self, version = version, height = height,
                         reference_height = reference_height\<rparr>, forwarded))"

text \<open>The loop of lines 162-164: \<open>bitvector |= 1 << idx\<close> for every key.\<close>

fun bitvector_of_keys :: "int list \<Rightarrow> int \<Rightarrow> error + int" where
  "bitvector_of_keys [] bitvector = Inr bitvector"
| "bitvector_of_keys (idx # keys) bitvector =
     (if idx < 0 then Inl ValueError
      else bitvector_of_keys keys (bitvector OR push_bit (nat idx) 1))"

text \<open>
  Lines 167-173, after \<open>serialize_leint\<close> has returned the bytes \<open>bv\<close> of
  \<open>bitvector >> 3\<close>: the value of \<open>code\<close>.
\<close>

definition pack_code :: "int \<Rightarrow> bytes \<Rightarrow> int" where
  "pack_code bitvector bv =
    (let code = bitvector AND 7;
         bitvector_len = int (length bv);
         bitvector_len = (if code = 0 then bitvector_len - 1 else bitvector_len)
     in code OR push_bit 3 bitvector_len)"

text \<open>The loop of lines 178-180 over the values of the mapping.\<close>

fun serialize_outputs :: "'c codecs \<Rightarrow> 'c Output list \<Rightarrow> error + bytes" where
  "serialize_outputs cs [] = Inr []"
| "serialize_outputs cs (output # rest) =
     seq (call (compress_amount cs (amount output))) (\<lambda>c.
     seq (call (serialize_varint cs c)) (\<lambda>r1.
     seq (call (pickler_dumps cs (contract output))) (\<lambda>r2.
     seq (serialize_outputs cs rest) (\<lambda>r.
     Inr (r1 @ r2 @ r)))))"

definition serialize :: "'c codecs \<Rightarrow> 'c UnspentTransaction \<Rightarrow> error + bytes" where
  "serialize cs self =
    seq (bitvector_of_keys (map fst (entries self)) 0) (\<lambda>bitvector.
    if bitvector = 0 then Inl TypeError
    else
      seq (call (serialize_leint cs (drop_bit 3 bitvector))) (\<lambda>bv.
      let code = pack_code bitvector bv in
      seq (call (serialize_varint cs (version self))) (\<lambda>r_version.
      seq (call (serialize_varint cs code)) (\<lambda>r_code.
      seq (serialize_outputs cs (map snd (entries self))) (\<lambda>r_outputs.
      seq (call (serialize_varint cs (height self))) (\<lambda>r_height.
      if version self = 2
      then seq (call (serialize_varint cs (reference_height self))) (\<lambda>r_reference_height.
             Inr (r_version @ r_code @ bv @ r_outputs @ r_height @ r_reference_height))
      else Inr (r_version @ r_code @ bv @ r_outputs @ r_height)))))))"

text \<open>
  Lines 193-199: from the \<open>code\<close> just read, the bit vector, reading \<open>code >> 3\<close>
  (plus one when the low three bits are zero) bytes of it from the stream.
\<close>

definition unpack_bitvector :: "'c codecs \<Rightarrow> nat \<Rightarrow> bytes \<Rightarrow> error + (nat \<times> bytes)" where
  "unpack_bitvector cs code0 file =
    (let bitvector = 0 OR (code0 AND 7);
         code = drop_bit 3 code0;
         code = (if bitvector = 0 then code + 1 else code)
     in if code \<noteq> 0
        then seq (call (deserialize_leint cs file (int code))) (\<lambda>(n, file').
               Inr (bitvector OR push_bit 3 n, file'))
        else Inr (bitvector, file))"

text \<open>Lines 204-206: one output, its amount first, then its contract.\<close>

definition read_output :: "'c codecs \<Rightarrow> bytes \<Rightarrow> error + ('c Output \<times> bytes)" where
  "read_output cs file =
    seq (call (deserialize_varint cs file)) (\<lambda>(x, file1).
    seq (call (decompress_amount cs (int x))) (\<lambda>a.
    seq (call (pickler_load cs file1)) (\<lambda>(c, file2).
    Inr (\<lparr>amount = a, contract = c\<rparr>, file2))))"

text \<open>The loop of lines 200-207, \<open>while bitvector: ...\<close>.\<close>

function walk :: "'c codecs \<Rightarrow> nat \<Rightarrow> nat \<Rightarrow> (int \<times> 'c Output) list \<Rightarrow> bytes
                   \<Rightarrow> error + ((int \<times> 'c Output) list \<times> bytes)" where
  "walk cs idx bitvector items file =
    (if bitvector \<noteq> 0
     then (if bitvector AND 1 \<noteq> 0
           then seq (read_output cs file) (\<lambda>(output, file').
                  walk cs (idx + 1) (drop_bit 1 bitvector) (items @ [(int idx, output)]) file')
           else walk cs (idx + 1) (drop_bit 1 bitvector) items file)
     else Inr (items, file))"
  by pat_completeness auto
termination
  by (relation "measure (\<lambda>(cs, idx, bitvector, items, file). bitvector)")
     (auto simp: drop_bit_eq_div)

definition deserialize :: "'c codecs \<Rightarrow> bytes \<Rightarrow> error + ('c UnspentTransaction \<times> bytes)" where
  "deserialize cs file =
    seq (call (deserialize_varint cs file)) (\<lambda>(version, file1).
    seq (call (deserialize_varint cs file1)) (\<lambda>(code, file2).
    seq (unpack_bitvector cs code file2) (\<lambda>(bitvector, file3).
    seq (walk cs 0 bitvector [] file3) (\<lambda>(items, file4).
    seq (call (deserialize_varint cs file4)) (\<lambda>(height, file5).
    if int version = 2
    then seq (call (deserialize_varint cs file5)) (\<lambda>(reference_height, file6).
           seq (UnspentTransaction_init cs (Some (Items items))
                  \<lparr>kw_transaction = None, kw_version = Some (int version),
                   kw_height = Some (int height),
                   kw_reference_height = Some (int reference_height)\<rparr>) (\<lambda>(obj, forwarded).
             Inr (obj, file6)))
    else seq (UnspentTransaction_init cs (Some (Items items))
                \<lparr>kw_transaction = None, kw_version = Some (int version),
                 kw_height = Some (int height), kw_reference_height = None\<rparr>) (\<lambda>(obj, forwarded).
           Inr (obj, file5)))))))"

text \<open>\<open>UnspentTransaction.__eq__\<close>; the superclass compares the mappings.\<close>

definition UnspentTransaction_eq :: "'c UnspentTransaction \<Rightarrow> 'c UnspentTransaction \<Rightarrow> bool" where
  "UnspentTransaction_eq self other =
    (if height self \<noteq> height other \<or> version self \<noteq> version other then False
     else if version self = 2 \<and> reference_height self \<noteq> reference_height other then False
     else entries self = entries other)"

subsection \<open>ContractOutPoint and OutputData\<close>

text \<open>
  Both are \<open>recordtype\<close> classes whose fields have no default: the generated constructor
  requires every field and raises \<open>TypeError\<close> when one is missing. The constructors below
  take the keyword arguments as options, \<open>None\<close> for an absent keyword.
\<close>

record 'c ContractOutPoint =
  cop_contract :: "'c"
  cop_hash :: int
  cop_index :: int

record OutputData =
  od_version :: int
  od_amount :: int
  od_height :: int
  od_reference_height :: int

definition ContractOutPoint_new ::
    "'c option \<Rightarrow> int option \<Rightarrow> int option \<Rightarrow> error + 'c ContractOutPoint" where
  "ContractOutPoint_new kw_contract kw_hash kw_index =
    (case (kw_contract, kw_hash, kw_index) of
       (Some c, Some h, Some i) \<Rightarrow> Inr \<lparr>cop_contract = c, cop_hash = h, cop_index = i\<rparr>
     | _ \<Rightarrow> Inl TypeError)"

definition OutputData_new ::
    "int option \<Rightarrow> int option \<Rightarrow> int option \<Rightarrow> int option \<Rightarrow> error + OutputData" where
  "OutputData_new v a h r =
    (case (v, a, h, r) of
       (Some v', Some a', Some h', Some r') \<Rightarrow>
         Inr \<lparr>od_version = v', od_amount = a', od_height = h', od_reference_height = r'\<rparr>
     | _ \<Rightarrow> Inl TypeError)"

definition serialize_contract_outpoint :: "'c codecs \<Rightarrow> 'c ContractOutPoint \<Rightarrow> error + bytes" where
  "serialize_contract_outpoint cs self =
    seq (call (contract_serialize cs (cop_contract self))) (\<lambda>s.
    seq (call (pickler_dumps cs s)) (\<lambda>r_contract.
    seq (call (hash256_serialize cs (cop_hash self))) (\<lambda>r_hash.
    seq (call (serialize_varint cs (cop_index self))) (\<lambda>r_index.
    Inr (r_contract @ r_hash @ r_index)))))"

definition deserialize_contract_outpoint ::
    "'c codecs \<Rightarrow> bytes \<Rightarrow> error + ('c ContractOutPoint \<times> bytes)" where
  "deserialize_contract_outpoint cs file =
    seq (call (pickler_load cs file)) (\<lambda>(contract, file1).
    seq (call (hash256_deserialize cs file1)) (\<lambda>(hash, file2).
    seq (call (deserialize_varint cs file2)) (\<lambda>(index, file3).
    seq (ContractOutPoint_new (Some contract) (Some hash) (Some (int index))) (\<lambda>obj.
    Inr (obj, file3)))))"

definition serialize_output_data :: "'c codecs \<Rightarrow> OutputData \<Rightarrow> error + bytes" where
  "serialize_output_data cs self =
    seq (call (serialize_varint cs (od_version self))) (\<lambda>p1.
    seq (call (serialize_varint cs (od_height self))) (\<lambda>p2.
    seq (call (compress_amount cs (od_amount self))) (\<lambda>c.
    seq (call (serialize_varint cs c)) (\<lambda>p3.
    if od_version self = 2
    then seq (call (serialize_varint cs
                (push_bit 1 (od_height self) OR od_reference_height self))) (\<lambda>p4.
           Inr (p1 @ p2 @ p3 @ p4))
    else Inr (p1 @ p2 @ p3)))))"

definition deserialize_output_data :: "'c codecs \<Rightarrow> bytes \<Rightarrow> error + (OutputData \<times> bytes)" where
  "deserialize_output_data cs file =
    seq (call (deserialize_varint cs file)) (\<lambda>(version, file1).
    seq (call (deserialize_varint cs file1)) (\<lambda>(height, file2).
    seq (call (deserialize_varint cs file2)) (\<lambda>(x, file3).
    seq (call (decompress_amount cs (int x))) (\<lambda>amount.
    if int version = 2
    then seq (call (deserialize_varint cs file3)) (\<lambda>(reference_height, file4).
           seq (OutputData_new (Some (int version)) (Some amount) (Some (int height))
                  (Some (int reference_height))) (\<lambda>obj.
             Inr (obj, file4)))
    else seq (OutputData_new (Some (int version)) (Some amount) (Some (int height)) None)
           (\<lambda>obj. Inr (obj, file3))))))"

subsection \<open>The contracts of the imported codecs\<close>

text \<open>
  What the module relies on, as the interface of each collaborator states it.
  An integer encoder accepts non-negative integers only, and decoding what it wrote
  gives the integer back and leaves the rest of the stream. The minimal little-endian
  encoding has no trailing zero byte, and only 0 is encoded by the empty string; its
  decoder is called with the number of bytes to read. Amount compression is inverted by
  decompression, the pickler's \<open>load\<close> inverts \<open>dumps\<close>, and \<open>hash256.deserialize\<close>
  inverts \<open>hash256.serialize\<close>.
\<close>

definition varint_contract :: "'c codecs \<Rightarrow> bool" where
  "varint_contract cs \<longleftrightarrow>
    (\<forall>n bs rest. serialize_varint cs n = Some bs \<longrightarrow>
       0 \<le> n \<and> deserialize_varint cs (bs @ rest) = Some (nat n, rest))"

definition leint_contract :: "'c codecs \<Rightarrow> bool" where
  "leint_contract cs \<longleftrightarrow>
    (\<forall>n bs rest. serialize_leint cs n = Some bs \<longrightarrow>
       0 \<le> n \<and> deserialize_leint cs (bs @ rest) (int (length bs)) = Some (nat n, rest) \<and>
       (bs \<noteq> [] \<longrightarrow> last bs \<noteq> 0) \<and> (bs = [] \<longrightarrow> n = 0))"

definition amount_contract :: "'c codecs \<Rightarrow> bool" where
  "amount_contract cs \<longleftrightarrow>
    (\<forall>a c. compress_amount cs a = Some c \<longrightarrow> decompress_amount cs c = Some a)"

definition pickler_contract :: "'c codecs \<Rightarrow> bool" where
  "pickler_contract cs \<longleftrightarrow>
    (\<forall>c bs rest. pickler_dumps cs c = Some bs \<longrightarrow> pickler_load cs (bs @ rest) = Some (c, rest))"

definition hash_contract :: "'c codecs \<Rightarrow> bool" where
  "hash_contract cs \<longleftrightarrow>
    (\<forall>h bs rest. hash256_serialize cs h = Some bs \<longrightarrow>
       hash256_deserialize cs (bs @ rest) = Some (h, rest))"

subsection \<open>An instance of the codecs\<close>

text \<open>
  Modelled from the spec: the codecs live in \<open>bitcoin/serialize.py\<close>, \<open>bitcoin/tools.py\<close>,
  \<open>bitcoin/script.py\<close> and \<open>bitcoin/hash.py\<close>, which are not part of the sources at
  hand. The instance below follows the interface descriptions: a CompactSize-style
  variable-length integer (one byte below 253, else a marker byte 253, 254 or 255 and 2, 4
  or 8 little-endian bytes), the shortest little-endian byte string of an integer (empty
  for 0) read back from a given number of bytes, the compact amount encoding that the
  docstring of \<open>UnspentTransaction\<close> exemplifies (234925952 is written as 2114333561, and
  110397 as 993571), a pickler that writes a contract (a byte string) behind its length, a
  32-byte little-endian hash, and a contract whose own \<open>serialize()\<close> is its byte string
  behind its length. The mapping constructor of the instance cannot order a string key
  with integer keys, as in Python 3. The instance serves to run the model on concrete
  inputs.
\<close>

fun le_bytes :: "nat \<Rightarrow> nat \<Rightarrow> bytes" where
  "le_bytes 0 n = []"
| "le_bytes (Suc k) n = of_nat (n mod 256) # le_bytes k (n div 256)"

fun le_value :: "bytes \<Rightarrow> nat" where
  "le_value [] = 0"
| "le_value (b # bs) = unat b + 256 * le_value bs"

definition read_le :: "nat \<Rightarrow> bytes \<Rightarrow> (nat \<times> bytes) option" where
  "read_le k file = (if length file < k then None else Some (le_value (take k file), drop k file))"

definition spec_serialize_varint :: "int \<Rightarrow> bytes option" where
  "spec_serialize_varint n =
    (if n < 0 then None
     else if n < 253 then Some [of_int n]
     else if n \<le> 0xffff then Some (253 # le_bytes 2 (nat n))
     else if n \<le> 0xffffffff then Some (254 # le_bytes 4 (nat n))
     else if n \<le> 0xffffffffffffffff then Some (255 # le_bytes 8 (nat n))
     else None)"

definition spec_deserialize_varint :: "bytes \<Rightarrow> (nat \<times> bytes) option" where
  "spec_deserialize_varint file =
    (case file of [] \<Rightarrow> None
     | b # rest \<Rightarrow>
         if unat b < 253 then Some (unat b, rest)
         else if b = 253 then read_le 2 rest
         else if b = 254 then read_le 4 rest
         else read_le 8 rest)"

function leint_bytes :: "nat \<Rightarrow> bytes" where
  "leint_bytes n = (if n = 0 then [] else of_nat (n mod 256) # leint_bytes (n div 256))"
  by pat_completeness auto
termination
  by (relation "measure id") auto

definition spec_serialize_leint :: "int \<Rightarrow> bytes option" where
  "spec_serialize_leint n = (if n < 0 then None else Some (leint_bytes (nat n)))"

definition spec_deserialize_leint :: "bytes \<Rightarrow> int \<Rightarrow> (nat \<times> bytes) option" where
  "spec_deserialize_leint file len = (if len < 0 then None else read_le (nat len) file)"

function strip_zeros :: "nat \<Rightarrow> nat \<Rightarrow> nat \<times> nat" where
  "strip_zeros n e = (if n mod 10 = 0 \<and> e < 9 then strip_zeros (n div 10) (e + 1) else (n, e))"
  by pat_completeness auto
termination
  by (relation "measure (\<lambda>(n, e). 9 - e)") auto

definition compress_nat :: "nat \<Rightarrow> nat" where
  "compress_nat n =
    (if n = 0 then 0
     else (case strip_zeros n 0 of (m, e) \<Rightarrow>
             if e < 9 then 1 + (m div 10 * 9 + m mod 10 - 1) * 10 + e
             else 1 + (m - 1) * 10 + 9))"

definition decompress_nat :: "nat \<Rightarrow> nat" where
  "decompress_nat x =
    (if x = 0 then 0
     else (let x1 = x - 1; e = x1 mod 10; x2 = x1 div 10;
               n = (if e < 9 then x2 div 9 * 10 + x2 mod 9 + 1 else x2 + 1)
           in n * 10 ^ e))"

definition spec_compress_amount :: "int \<Rightarrow> int option" where
  "spec_compress_amount a = (if a < 0 then None else Some (int (compress_nat (nat a))))"

definition spec_decompress_amount :: "int \<Rightarrow> int option" where
  "spec_decompress_amount x = (if x < 0 then None else Some (int (decompress_nat (nat x))))"

definition spec_dumps :: "bytes \<Rightarrow> bytes option" where
  "spec_dumps c = map_option (\<lambda>p. p @ c) (spec_serialize_varint (int (length c)))"

definition spec_load :: "bytes \<Rightarrow> (bytes \<times> bytes) option" where
  "spec_load file =
    (case spec_deserialize_varint file of None \<Rightarrow> None
     | Some (n, rest) \<Rightarrow> if length rest < n then None else Some (take n rest, drop n rest))"

definition spec_contract_serialize :: "bytes \<Rightarrow> bytes option" where
  "spec_contract_serialize c = map_option (\<lambda>p. p @ c) (spec_serialize_varint (int (length c)))"

definition spec_hash256_serialize :: "int \<Rightarrow> bytes option" where
  "spec_hash256_serialize h = (if 0 \<le> h \<and> h < 2 ^ 256 then Some (le_bytes 32 (nat h)) else None)"

definition spec_hash256_deserialize :: "bytes \<Rightarrow> (int \<times> bytes) option" where
  "spec_hash256_deserialize file = map_option (\<lambda>(n, rest). (int n, rest)) (read_le 32 file)"

definition spec_sorteddict_keywords :: "int list \<Rightarrow> (string \<times> int) list \<Rightarrow> bool" where
  "spec_sorteddict_keywords keys kw \<longleftrightarrow> keys = []"

definition spec_codecs :: "bytes codecs" where
  "spec_codecs =
    \<lparr>serialize_varint = spec_serialize_varint, deserialize_varint = spec_deserialize_varint,
     serialize_leint = spec_serialize_leint, deserialize_leint = spec_deserialize_leint,
     compress_amount = spec_compress_amount, decompress_amount = spec_decompress_amount,
     pickler_dumps = spec_dumps, pickler_load = spec_load,
     contract_serialize = spec_contract_serialize,
     hash256_serialize = spec_hash256_serialize,
     hash256_deserialize = spec_hash256_deserialize,
     sorteddict_keywords = spec_sorteddict_keywords\<rparr>"



section \<open>Properties\<close>

subsection \<open>Sequencing\<close>

lemma seq_simps [simp]: "seq (Inl e) f = Inl e" "seq (Inr x) f = f x"
  by (simp_all add: seq_def)

lemma call_simps [simp]: "call None = Inl CodecError" "call (Some x) = Inr x"
  by (simp_all add: call_def)

subsection \<open>The instance satisfies the contracts\<close>

lemma length_le_bytes [simp]: "length (le_bytes k n) = k"
  by (induction k arbitrary: n) simp_all

lemma unat_byte_of_mod: "unat (of_nat (n mod 256) :: byte) = n mod 256"
  by (simp add: unat_of_nat)

lemma le_value_le_bytes: "le_value (le_bytes k n) = n mod 256 ^ k"
proof (induction k arbitrary: n)
  case 0
  then show ?case by simp
next
  case (Suc k)
  have "n mod 256 + 256 * (n div 256 mod 256 ^ k) = n mod (256 * 256 ^ k)"
    by (simp add: mod_mult2_eq)
  with Suc show ?case by (simp add: unat_byte_of_mod)
qed

lemma read_le_bytes: "n < 256 ^ k \<Longrightarrow> read_le k (le_bytes k n @ rest) = Some (n, rest)"
  by (simp add: read_le_def le_value_le_bytes)

lemma spec_varint_roundtrip:
  assumes "spec_serialize_varint n = Some bs"
  shows "0 \<le> n \<and> spec_deserialize_varint (bs @ rest) = Some (nat n, rest)"
proof -
  from assms have n0: "0 \<le> n" and n64: "n \<le> 0xffffffffffffffff"
    by (auto simp: spec_serialize_varint_def split: if_splits)
  consider (a) "n < 253" | (b) "253 \<le> n" "n \<le> 0xffff" | (c) "0xffff < n" "n \<le> 0xffffffff"
    | (d) "0xffffffff < n"
    by linarith
  then show ?thesis
  proof cases
    case a
    with n0 have u: "unat (of_int n :: byte) = nat n"
      by (simp add: unat_eq_nat_uint uint_word_of_int take_bit_int_eq_self)
    with a n0 assms show ?thesis
      by (auto simp: spec_serialize_varint_def spec_deserialize_varint_def)
  next
    case b
    with n0 have "nat n < 256 ^ 2" by simp
    from read_le_bytes [OF this] b n0 assms show ?thesis
      by (auto simp: spec_serialize_varint_def spec_deserialize_varint_def)
  next
    case c
    with n0 have "nat n < 256 ^ 4" by simp
    from read_le_bytes [OF this] c n0 assms show ?thesis
      by (auto simp: spec_serialize_varint_def spec_deserialize_varint_def)
  next
    case d
    with n0 n64 have "nat n < 256 ^ 8" by simp
    from read_le_bytes [OF this] d n0 n64 assms show ?thesis
      by (auto simp: spec_serialize_varint_def spec_deserialize_varint_def)
  qed
qed

lemma leint_bytes_value: "le_value (leint_bytes n) = n"
proof (induction n rule: leint_bytes.induct)
  case (1 n)
  show ?case
  proof (cases "n = 0")
    case True
    then show ?thesis by simp
  next
    case False
    with 1 have "le_value (leint_bytes (n div 256)) = n div 256" by simp
    with False show ?thesis
      by (subst leint_bytes.simps) (simp add: unat_byte_of_mod)
  qed
qed

lemma leint_bytes_last: "leint_bytes n \<noteq> [] \<Longrightarrow> last (leint_bytes n) \<noteq> 0"
proof (induction n rule: leint_bytes.induct)
  case (1 n)
  from "1.prems" have n: "n \<noteq> 0" by (auto simp: leint_bytes.simps [of n] split: if_splits)
  show ?case
  proof (cases "n div 256 = 0")
    case True
    with n have "n mod 256 = n" "n < 256" by (auto simp: div_eq_0_iff)
    then have "unat (of_nat (n mod 256) :: byte) = n" using unat_byte_of_mod [of n] by simp
    with n have "(of_nat (n mod 256) :: byte) \<noteq> 0" by (metis unat_0)
    with n True show ?thesis
      by (subst leint_bytes.simps) (simp add: leint_bytes.simps [of 0])
  next
    case False
    then have ne: "leint_bytes (n div 256) \<noteq> []"
      by (subst leint_bytes.simps) simp
    with 1 n have "last (leint_bytes (n div 256)) \<noteq> 0" by simp
    with n ne show ?thesis
      by (subst leint_bytes.simps) simp
  qed
qed

lemma leint_bytes_Nil_iff: "leint_bytes n = [] \<longleftrightarrow> n = 0"
  by (subst leint_bytes.simps) simp

declare leint_bytes.simps [simp del]

lemma spec_leint_roundtrip:
  assumes "spec_serialize_leint n = Some bs"
  shows "0 \<le> n \<and> spec_deserialize_leint (bs @ rest) (int (length bs)) = Some (nat n, rest) \<and>
         (bs \<noteq> [] \<longrightarrow> last bs \<noteq> 0) \<and> (bs = [] \<longrightarrow> n = 0)"
  using assms leint_bytes_last [of "nat n"] leint_bytes_Nil_iff [of "nat n"]
  by (auto simp: spec_serialize_leint_def spec_deserialize_leint_def read_le_def
      leint_bytes_value split: if_splits)

lemma strip_zeros_spec:
  "strip_zeros n e = (m, e') \<Longrightarrow> 0 < n \<Longrightarrow> e \<le> 9 \<Longrightarrow>
     m * 10 ^ e' = n * 10 ^ e \<and> e' \<le> 9 \<and> 0 < m \<and> (e' < 9 \<longrightarrow> m mod 10 \<noteq> 0)"
proof (induction n e rule: strip_zeros.induct)
  case (1 n e)
  show ?case
  proof (cases "n mod 10 = 0 \<and> e < 9")
    case True
    then have n10: "n = 10 * (n div 10)" using div_mult_mod_eq [of n 10] by simp
    with "1.prems" have pos: "0 < n div 10" by linarith
    from True "1.prems" have "strip_zeros (n div 10) (e + 1) = (m, e')" by simp
    from "1.IH" [OF True this pos] True
    have "m * 10 ^ e' = n div 10 * 10 ^ (e + 1)" "e' \<le> 9" "0 < m" "e' < 9 \<longrightarrow> m mod 10 \<noteq> 0"
      by simp_all
    moreover have "n div 10 * 10 ^ (e + 1) = n * 10 ^ e"
      using n10 by (metis mult.assoc mult.commute power_add power_one_right add.commute)
    ultimately show ?thesis by simp
  next
    case False
    with "1.prems" show ?thesis by auto
  qed
qed

declare strip_zeros.simps [simp del]

lemma divmod_digit:
  fixes k r b :: nat
  assumes "r < b"
  shows "(k * b + r) mod b = r" "(k * b + r) div b = k"
  using assms by simp_all

lemma decompress_nat_low:
  assumes "e < 9" "d < 9"
  shows "decompress_nat (1 + (q * 9 + d) * 10 + e) = (q * 10 + d + 1) * 10 ^ e"
proof -
  from assms have e10: "e < 10" by simp
  note e1 = divmod_digit [OF e10, of "q * 9 + d"]
  note e3 = divmod_digit [OF assms(2), of q]
  have "decompress_nat (Suc ((q * 9 + d) * 10 + e)) = (q * 10 + d + 1) * 10 ^ e"
    unfolding decompress_nat_def Let_def diff_Suc_1 e1 e3
    by (simp only: nat.simps if_False assms if_True)
  then show ?thesis by (simp only: One_nat_def plus_nat.simps add_0)
qed

lemma decompress_nat_high: "decompress_nat (1 + k * 10 + 9) = (k + 1) * 10 ^ 9"
proof -
  have "(9::nat) < 10" by simp
  note e1 = divmod_digit [OF this, of k]
  have "decompress_nat (Suc (k * 10 + 9)) = (k + 1) * 10 ^ 9"
    unfolding decompress_nat_def Let_def diff_Suc_1 e1
    by (simp only: nat.simps if_False less_irrefl)
  then show ?thesis by (simp only: One_nat_def plus_nat.simps add_0)
qed
lemma decompress_compress_nat: "decompress_nat (compress_nat n) = n"
proof (cases "n = 0")
  case True
  then show ?thesis by (simp add: compress_nat_def decompress_nat_def)
next
  case False
  obtain m e where st: "strip_zeros n 0 = (m, e)" by (cases "strip_zeros n 0")
  from strip_zeros_spec [OF st] False
  have m: "m * 10 ^ e = n" "e \<le> 9" "0 < m" "e < 9 \<longrightarrow> m mod 10 \<noteq> 0" by simp_all
  show ?thesis
  proof (cases "e < 9")
    case True
    define q where "q = m div 10"
    define d where "d = m mod 10 - 1"
    from True m have dm: "m mod 10 = d + 1" "d < 9" by (simp_all add: d_def)
    have mq: "m = q * 10 + d + 1" using div_mult_mod_eq [of m 10] by (simp add: q_def dm(1))
    have "compress_nat n = 1 + (q * 9 + d) * 10 + e"
      using False True by (simp add: compress_nat_def st dm(1) flip: q_def)
    with decompress_nat_low [OF True dm(2), of q] m(1) mq show ?thesis by simp
  next
    case False
    with m have e9: "e = 9" by simp
    have "compress_nat n = 1 + (m - 1) * 10 + 9"
      using \<open>n \<noteq> 0\<close> by (simp add: compress_nat_def st e9)
    with decompress_nat_high [of "m - 1"] m(1) m(3) e9 show ?thesis by simp
  qed
qed

lemma spec_amount_roundtrip:
  assumes "spec_compress_amount a = Some c"
  shows "spec_decompress_amount c = Some a"
  using assms
  by (auto simp: spec_compress_amount_def spec_decompress_amount_def decompress_compress_nat
      split: if_splits)

lemma spec_pickler_roundtrip:
  assumes "spec_dumps c = Some bs"
  shows "spec_load (bs @ rest) = Some (c, rest)"
proof -
  from assms obtain p where p: "spec_serialize_varint (int (length c)) = Some p" "bs = p @ c"
    by (auto simp: spec_dumps_def)
  from spec_varint_roundtrip [OF p(1), of "c @ rest"] p(2) show ?thesis
    by (simp add: spec_load_def)
qed

lemma spec_hash_roundtrip:
  assumes "spec_hash256_serialize h = Some bs"
  shows "spec_hash256_deserialize (bs @ rest) = Some (h, rest)"
proof -
  from assms have h: "0 \<le> h" "h < 2 ^ 256" "bs = le_bytes 32 (nat h)"
    by (auto simp: spec_hash256_serialize_def split: if_splits)
  then have "nat h < 256 ^ 32" by (simp add: nat_less_iff)
  from read_le_bytes [OF this, of rest] h show ?thesis
    by (simp add: spec_hash256_deserialize_def)
qed

lemma spec_codecs_contracts:
  "varint_contract spec_codecs" "leint_contract spec_codecs" "amount_contract spec_codecs"
  "pickler_contract spec_codecs" "hash_contract spec_codecs"
  using spec_varint_roundtrip spec_leint_roundtrip spec_amount_roundtrip spec_pickler_roundtrip
    spec_hash_roundtrip
  by (auto simp: varint_contract_def leint_contract_def amount_contract_def
      pickler_contract_def hash_contract_def spec_codecs_def)

subsection \<open>Running the instance\<close>

lemma spec_codecs_sel [simp]:
  "serialize_varint spec_codecs = spec_serialize_varint"
  "deserialize_varint spec_codecs = spec_deserialize_varint"
  "serialize_leint spec_codecs = spec_serialize_leint"
  "deserialize_leint spec_codecs = spec_deserialize_leint"
  "compress_amount spec_codecs = spec_compress_amount"
  "decompress_amount spec_codecs = spec_decompress_amount"
  "pickler_dumps spec_codecs = spec_dumps"
  "pickler_load spec_codecs = spec_load"
  "contract_serialize spec_codecs = spec_contract_serialize"
  "hash256_serialize spec_codecs = spec_hash256_serialize"
  "hash256_deserialize spec_codecs = spec_hash256_deserialize"
  "sorteddict_keywords spec_codecs = spec_sorteddict_keywords"
  by (simp_all add: spec_codecs_def)

lemma le_bytes_numeral [simp]:
  "le_bytes (numeral k) n = of_nat (n mod 256) # le_bytes (pred_numeral k) (n div 256)"
  unfolding numeral_eq_Suc [of k] by (simp only: le_bytes.simps)

lemma leint_bytes_0 [simp]: "leint_bytes 0 = []"
  by (subst leint_bytes.simps) simp

lemma leint_bytes_pos [simp]:
  "0 < n \<Longrightarrow> leint_bytes n = of_nat (n mod 256) # leint_bytes (n div 256)"
  by (subst leint_bytes.simps) simp

lemma strip_zeros_step [simp]:
  "n mod 10 = 0 \<Longrightarrow> e < 9 \<Longrightarrow> strip_zeros n e = strip_zeros (n div 10) (e + 1)"
  by (subst strip_zeros.simps) simp

lemma strip_zeros_stop [simp]:
  "n mod 10 \<noteq> 0 \<or> \<not> e < 9 \<Longrightarrow> strip_zeros n e = (n, e)"
  by (subst strip_zeros.simps) auto

lemmas spec_codec_defs =
  spec_serialize_varint_def spec_deserialize_varint_def spec_serialize_leint_def
  spec_deserialize_leint_def spec_compress_amount_def spec_decompress_amount_def
  compress_nat_def decompress_nat_def spec_dumps_def spec_load_def
  spec_contract_serialize_def spec_hash256_serialize_def spec_hash256_deserialize_def
  read_le_def

subsection \<open>Equality\<close>

text \<open>
  C8. \<open>__eq__\<close> holds exactly when version and height agree, reference_height agrees if
  the version is 2, and the output mappings agree. So two records with the same outputs
  and different heights are unequal, as are two records of version 2 that differ in
  reference_height only.
\<close>

theorem UnspentTransaction_eq_iff:
  "UnspentTransaction_eq a b \<longleftrightarrow>
     version a = version b \<and> height a = height b \<and>
     (version a = 2 \<longrightarrow> reference_height a = reference_height b) \<and>
     entries a = entries b"
  by (auto simp: UnspentTransaction_eq_def)

theorem UnspentTransaction_eq_iff_witness:
  "\<not> UnspentTransaction_eq
      \<lparr>entries = [(0, \<lparr>amount = 5, contract = [1 :: byte]\<rparr>)], version = 2, height = 7,
       reference_height = 3\<rparr>
      \<lparr>entries = [(0, \<lparr>amount = 5, contract = [1]\<rparr>)], version = 2, height = 7,
       reference_height = 4\<rparr> \<and>
   \<not> UnspentTransaction_eq
      \<lparr>entries = [(0, \<lparr>amount = 5, contract = [1 :: byte]\<rparr>)], version = 1, height = 7,
       reference_height = 3\<rparr>
      \<lparr>entries = [(0, \<lparr>amount = 5, contract = [1]\<rparr>)], version = 1, height = 8,
       reference_height = 3\<rparr> \<and>
   UnspentTransaction_eq
      \<lparr>entries = [(0, \<lparr>amount = 5, contract = [1 :: byte]\<rparr>)], version = 1, height = 7,
       reference_height = 3\<rparr>
      \<lparr>entries = [(0, \<lparr>amount = 5, contract = [1]\<rparr>)], version = 1, height = 7,
       reference_height = 4\<rparr>"
  by (simp add: UnspentTransaction_eq_iff)

subsection \<open>The constructor\<close>

text \<open>
  C6. The constructor raises its \<open>TypeError\<close> exactly when at least two of these hold:
  the keyword \<open>transaction\<close> is present (whatever its value, Python's \<open>None\<close> included),
  the positional argument is another instance, one of the keywords \<open>version\<close> and
  \<open>reference_height\<close> is present. Otherwise it returns, unless the constructor of the
  mapping raises on a keyword \<open>reference_height\<close> passed on to it.
\<close>

theorem init_TypeError_iff:
  "(let a = (kw_transaction kwargs \<noteq> None);
        b = (\<exists>u. args = Some (Instance u));
        c = (kw_version kwargs \<noteq> None \<or> kw_reference_height kwargs \<noteq> None)
    in (UnspentTransaction_init cs args kwargs = Inl TypeError \<longleftrightarrow>
          (a \<and> b) \<or> (a \<and> c) \<or> (b \<and> c)) \<and>
       (\<not> ((a \<and> b) \<or> (a \<and> c) \<or> (b \<and> c)) \<longrightarrow>
          (\<exists>r. UnspentTransaction_init cs args kwargs = Inr r) \<or>
          UnspentTransaction_init cs args kwargs = Inl MappingError \<and>
          kw_reference_height kwargs \<noteq> None))"
  by (auto simp: UnspentTransaction_init_def Let_def split: option.splits arg.splits)

theorem init_TypeError_iff_witness:
  "UnspentTransaction_init spec_codecs
     (Some (Instance \<lparr>entries = [(0, \<lparr>amount = 5, contract = [1 :: byte]\<rparr>)], version = 1,
                      height = 7, reference_height = 0\<rparr>))
     \<lparr>kw_transaction = None, kw_version = Some 2, kw_height = None,
      kw_reference_height = None\<rparr> = Inl TypeError \<and>
   (\<exists>r. UnspentTransaction_init spec_codecs
          (Some (Items [(0, \<lparr>amount = 5, contract = [1 :: byte]\<rparr>)]))
          \<lparr>kw_transaction = None, kw_version = Some 2, kw_height = Some 7,
           kw_reference_height = Some 3\<rparr> = Inr r)"
  using
    init_TypeError_iff [of
      "\<lparr>kw_transaction = None, kw_version = Some 2, kw_height = None,
        kw_reference_height = None\<rparr>"
      "Some (Instance \<lparr>entries = [(0, \<lparr>amount = 5, contract = [1 :: byte]\<rparr>)], version = 1,
                       height = 7, reference_height = 0\<rparr>)" spec_codecs]
    init_TypeError_iff [of
      "\<lparr>kw_transaction = None, kw_version = Some 2, kw_height = Some 7,
        kw_reference_height = Some 3\<rparr>"
      "Some (Items [(0, \<lparr>amount = 5, contract = [1 :: byte]\<rparr>)])" spec_codecs]
  by (simp add: Let_def UnspentTransaction_init_def sorteddict_def)

text \<open>
  The keyword \<open>transaction\<close> counts as a source by its presence: passed as \<open>None\<close> together
  with a version, and with no other source, the constructor raises.
\<close>

theorem init_transaction_None_counterexample:
  "UnspentTransaction_init spec_codecs None
     \<lparr>kw_transaction = Some None, kw_version = Some 2, kw_height = None,
      kw_reference_height = None\<rparr> = Inl TypeError"
  by (simp add: UnspentTransaction_init_def)

text \<open>
  C10. When the constructor returns, the stored version is the keyword \<open>version\<close> or,
  without it, the version of the source object (1 without a source). If that version is
  2, the stored reference_height is the keyword \<open>reference_height\<close> (the source's value, or
  0, without the keyword) and no keyword is left for the mapping constructor. For any
  other version the stored reference_height is the source's value, or 0 without a source,
  and a keyword \<open>reference_height\<close> is left in the keyword arguments passed on to the
  mapping constructor. A keyword \<open>reference_height\<close> excludes a source object, so the
  stored value is 0 in that case.
\<close>

theorem init_reference_height:
  assumes "UnspentTransaction_init cs args kwargs = Inr (obj, forwarded)"
  shows "(let source_reference_height =
            (case args of Some (Instance u) \<Rightarrow> reference_height u
             | _ \<Rightarrow> (case kw_transaction kwargs of Some (Some t) \<Rightarrow>
                       (case tx_reference_height t of None \<Rightarrow> 0 | Some r \<Rightarrow> r)
                     | _ \<Rightarrow> 0));
              source_version =
            (case args of Some (Instance u) \<Rightarrow> version u
             | _ \<Rightarrow> (case kw_transaction kwargs of Some (Some t) \<Rightarrow>
                       (case tx_version t of None \<Rightarrow> 1 | Some v \<Rightarrow> v)
                     | _ \<Rightarrow> 1))
          in version obj = (case kw_version kwargs of Some v \<Rightarrow> v | None \<Rightarrow> source_version) \<and>
             (version obj = 2 \<longrightarrow>
                reference_height obj =
                  (case kw_reference_height kwargs of Some r \<Rightarrow> r
                   | None \<Rightarrow> source_reference_height) \<and>
                forwarded = []) \<and>
             (version obj \<noteq> 2 \<longrightarrow>
                reference_height obj = source_reference_height \<and>
                forwarded =
                  (case kw_reference_height kwargs of Some r \<Rightarrow> [(''reference_height'', r)]
                   | None \<Rightarrow> [])) \<and>
             (kw_reference_height kwargs \<noteq> None \<longrightarrow> source_reference_height = 0))"
  using assms
  by (auto simp: UnspentTransaction_init_def Let_def split: option.splits arg.splits if_splits)

theorem init_reference_height_witness:
  "UnspentTransaction_init spec_codecs None
     \<lparr>kw_transaction = None, kw_version = None, kw_height = Some 7,
      kw_reference_height = Some 3\<rparr> =
   Inr (\<lparr>entries = [], version = 1, height = 7, reference_height = 0\<rparr>,
        [(''reference_height'', 3)])"
proof -
  have run: "UnspentTransaction_init spec_codecs None
     \<lparr>kw_transaction = None, kw_version = None, kw_height = Some 7,
      kw_reference_height = Some 3\<rparr> =
   Inr (\<lparr>entries = [], version = 1, height = 7, reference_height = 0\<rparr>,
        [(''reference_height'', 3)])"
    by (simp add: UnspentTransaction_init_def spec_sorteddict_keywords_def)
  from init_reference_height [OF run] show ?thesis by (simp add: run)
qed

subsection \<open>OutputData\<close>

text \<open>
  C4. \<open>OutputData.serialize\<close> writes the variable-length integers of the version, of the
  height and of the compressed amount, in this order, and for version 2 one more: that of
  \<open>(height << 1) | reference_height\<close>.
\<close>

theorem serialize_output_data_layout:
  assumes "serialize_varint cs (od_version x) = Some p1"
    and "serialize_varint cs (od_height x) = Some p2"
    and "compress_amount cs (od_amount x) = Some c"
    and "serialize_varint cs c = Some p3"
    and "od_version x = 2 \<Longrightarrow>
           serialize_varint cs (push_bit 1 (od_height x) OR od_reference_height x) = Some p4"
  shows "serialize_output_data cs x = Inr (p1 @ p2 @ p3 @ (if od_version x = 2 then p4 else []))"
  using assms by (simp add: serialize_output_data_def)

theorem serialize_output_data_layout_witness:
  "serialize_output_data spec_codecs
     \<lparr>od_version = 2, od_amount = 110397, od_height = 5, od_reference_height = 1\<rparr> =
   Inr ([2] @ [5] @ [254, 35, 41, 15, 0] @ [11])"
proof -
  have "spec_serialize_varint 2 = Some [2]" "spec_serialize_varint 5 = Some [5]"
    "spec_compress_amount 110397 = Some 993571"
    "spec_serialize_varint 993571 = Some [254, 35, 41, 15, 0]"
    "spec_serialize_varint (push_bit 1 5 OR 1) = Some [11]"
    by (simp_all add: spec_codec_defs)
  with serialize_output_data_layout [of spec_codecs
      "\<lparr>od_version = 2, od_amount = 110397, od_height = 5, od_reference_height = 1\<rparr>"
      "[2]" "[5]" 993571 "[254, 35, 41, 15, 0]" "[11]"]
  show ?thesis by simp
qed

subsection \<open>Serializing an UnspentTransaction\<close>

lemma bitvector_of_keys_bits:
  "\<forall>k\<in>set keys. 0 \<le> k \<Longrightarrow>
     \<exists>b. bitvector_of_keys keys bv = Inr b \<and> (\<forall>i. bit b i \<longleftrightarrow> bit bv i \<or> int i \<in> set keys)"
proof (induction keys arbitrary: bv)
  case Nil
  then show ?case by simp
next
  case (Cons k keys)
  then obtain b where b: "bitvector_of_keys keys (bv OR push_bit (nat k) 1) = Inr b"
    "\<And>i. bit b i \<longleftrightarrow> bit (bv OR push_bit (nat k) 1) i \<or> int i \<in> set keys"
    by (metis list.set_intros(2))
  from Cons.prems have "0 \<le> k" by simp
  then have "\<And>i. bit (push_bit (nat k) (1::int)) i \<longleftrightarrow> int i = k"
    by (auto simp: bit_exp_iff)
  with b \<open>0 \<le> k\<close> show ?case
    by (auto simp: bit_or_iff)
qed


lemma bitvector_of_keys_nonzero:
  assumes "\<forall>k\<in>set keys. 0 \<le> k" "keys \<noteq> []" "bitvector_of_keys keys 0 = Inr b"
  shows "b \<noteq> 0"
proof -
  from assms(2) obtain k where k: "k \<in> set keys" by (cases keys) auto
  with assms(1) have "int (nat k) \<in> set keys" by simp
  with bitvector_of_keys_bits [OF assms(1), of 0] assms(3) have "bit b (nat k)" by auto
  then show ?thesis by auto
qed








subsection \<open>The code and the bit vector\<close>

lemma seven_mask_int: "(7::int) = mask 3"
  by (simp add: mask_eq_exp_minus_1)

lemma seven_mask_nat: "(7::nat) = mask 3"
  by (simp add: mask_eq_exp_minus_1)

lemma low_high_int: "(b AND 7) OR push_bit 3 (drop_bit 3 b) = (b::int)"
  unfolding seven_mask_int
proof (rule bit_eqI)
  fix n
  show "bit (b AND mask 3 OR push_bit 3 (drop_bit 3 b)) n = bit b n"
    by (cases "n < 3")
      (auto simp: bit_or_iff bit_and_iff bit_mask_iff bit_push_bit_iff bit_drop_bit_eq)
qed

lemma low_high_nat: "(b AND 7) OR push_bit 3 (drop_bit 3 b) = (b::nat)"
  unfolding seven_mask_nat
proof (rule bit_eqI)
  fix n
  show "bit (b AND mask 3 OR push_bit 3 (drop_bit 3 b)) n = bit b n"
    by (cases "n < 3")
      (auto simp: bit_or_iff bit_and_iff bit_mask_iff bit_push_bit_iff bit_drop_bit_eq)
qed

lemma int_and_7: "int (n AND 7) = int n AND 7"
  by (simp add: of_nat_and_eq)

lemma nat_drop_bit_int: "nat (drop_bit k (int n)) = drop_bit k n"
  by (simp flip: of_nat_drop_bit)

lemma pack_low_int: "((b AND 7) OR push_bit 3 x) AND 7 = b AND (7::int)"
  unfolding seven_mask_int
  by (rule bit_eqI) (auto simp: bit_or_iff bit_and_iff bit_mask_iff bit_push_bit_iff)

lemma pack_high_int: "drop_bit 3 ((b AND 7) OR push_bit 3 x) = (x::int)"
  unfolding seven_mask_int
  by (rule bit_eqI) (auto simp: bit_or_iff bit_and_iff bit_mask_iff bit_push_bit_iff bit_drop_bit_eq)

lemma pack_code_eq:
  "pack_code b bv =
     (b AND 7) OR push_bit 3 (if b AND 7 = 0 then int (length bv) - 1 else int (length bv))"
  by (simp add: pack_code_def Let_def)

lemma bitvector_of_keys_nonneg:
  "bitvector_of_keys keys bv = Inr b \<Longrightarrow> 0 \<le> bv \<Longrightarrow> 0 \<le> b \<and> (\<forall>k\<in>set keys. 0 \<le> k)"
proof (induction keys arbitrary: bv)
  case Nil
  then show ?case by simp
next
  case (Cons k keys)
  show ?case
  proof (cases "k < 0")
    case True
    with Cons.prems show ?thesis by simp
  next
    case False
    with Cons.prems have run: "bitvector_of_keys keys (bv OR push_bit (nat k) 1) = Inr b"
      by simp
    have "0 \<le> bv OR push_bit (nat k) 1"
      using Cons.prems(2) by (simp only: or_nonnegative_int_iff push_bit_nonnegative_int_iff) simp
    from Cons.IH [OF run this] False show ?thesis by simp
  qed
qed

lemma low_zero_high_nonzero:
  fixes b :: int
  assumes "b \<noteq> 0" "b AND 7 = 0"
  shows "drop_bit 3 b \<noteq> 0"
  using low_high_int [of b] assms by auto

lemma unpack_bitvector_read:
  assumes "deserialize_leint cs file (int (if c AND 7 = 0 then drop_bit 3 c + 1 else drop_bit 3 c))
             = Some (n, file')"
    and "c AND 7 = 0 \<or> drop_bit 3 c \<noteq> 0"
  shows "unpack_bitvector cs c file = Inr ((c AND 7) OR push_bit 3 n, file')"
proof (cases "c AND 7 = 0")
  case True
  with assms(1) show ?thesis by (simp add: unpack_bitvector_def Let_def)
next
  case False
  with assms show ?thesis by (simp add: unpack_bitvector_def Let_def)
qed

lemma unpack_bitvector_noread:
  assumes "c AND 7 \<noteq> 0" "drop_bit 3 c = 0"
  shows "unpack_bitvector cs c file = Inr (c AND 7, file)"
  using assms by (simp add: unpack_bitvector_def Let_def)

lemma unpack_pack_code:
  assumes nonneg: "0 \<le> bitvector"
    and dec: "deserialize_leint cs (bv @ rest) (int (length bv)) =
                Some (nat (drop_bit 3 bitvector), rest)"
    and empty: "bv = [] \<Longrightarrow> drop_bit 3 bitvector = 0"
    and nonempty: "bitvector AND 7 = 0 \<Longrightarrow> bv \<noteq> []"
  shows "pack_code bitvector bv AND 7 = bitvector AND 7 \<and>
         drop_bit 3 (pack_code bitvector bv) =
           (if bitvector AND 7 = 0 then int (length bv) - 1 else int (length bv)) \<and>
         (bitvector AND 7 = 0 \<longrightarrow> 1 \<le> length bv) \<and>
         0 \<le> pack_code bitvector bv \<and>
         unpack_bitvector cs (nat (pack_code bitvector bv)) (bv @ rest) =
           Inr (nat bitvector, rest)"
proof -
  define hi where "hi = (if bitvector AND 7 = 0 then int (length bv) - 1 else int (length bv))"
  have code: "pack_code bitvector bv = (bitvector AND 7) OR push_bit 3 hi"
    unfolding pack_code_eq hi_def ..
  have len: "1 \<le> length bv" if "bitvector AND 7 = 0"
    using nonempty [OF that] by (cases bv) simp_all
  then have hi0: "0 \<le> hi" unfolding hi_def by (cases "bitvector AND 7 = 0") auto
  have low: "pack_code bitvector bv AND 7 = bitvector AND 7"
    unfolding code by (rule pack_low_int)
  have high: "drop_bit 3 (pack_code bitvector bv) = hi"
    unfolding code by (rule pack_high_int)
  have code0: "0 \<le> pack_code bitvector bv"
    unfolding code using nonneg hi0 by simp
  define B where "B = nat bitvector"
  define c where "c = nat (pack_code bitvector bv)"
  have B: "bitvector = int B" using nonneg by (simp add: B_def)
  have c: "pack_code bitvector bv = int c" using code0 by (simp add: c_def)
  have lowc: "c AND 7 = B AND 7"
  proof -
    have "int (c AND 7) = int (B AND 7)"
      unfolding int_and_7 using low [unfolded c] unfolding B .
    then show ?thesis by (simp only: of_nat_eq_iff)
  qed
  have lowB: "bitvector AND 7 = 0 \<longleftrightarrow> B AND 7 = 0"
  proof -
    have "bitvector AND 7 = int (B AND 7)" unfolding int_and_7 B ..
    then show ?thesis by simp
  qed
  have highc: "int (drop_bit 3 c) = hi"
    using high by (simp only: c of_nat_drop_bit)
  have over: "nat (drop_bit 3 bitvector) = drop_bit 3 B"
    unfolding B by (rule nat_drop_bit_int)
  have recover: "unpack_bitvector cs c (bv @ rest) = Inr (B, rest)"
  proof (cases "B AND 7 = 0")
    case True
    with lowB have z: "bitvector AND 7 = 0" by simp
    from len [OF z] highc have "int (drop_bit 3 c + 1) = int (length bv)"
      by (simp add: hi_def z)
    with dec over True lowc
    have "deserialize_leint cs (bv @ rest)
            (int (if c AND 7 = 0 then drop_bit 3 c + 1 else drop_bit 3 c)) =
          Some (drop_bit 3 B, rest)"
      by simp
    from unpack_bitvector_read [OF this] True lowc
    have "unpack_bitvector cs c (bv @ rest) = Inr ((B AND 7) OR push_bit 3 (drop_bit 3 B), rest)"
      by (simp only: simp_thms)
    then show ?thesis by (simp only: low_high_nat)
  next
    case False
    with lowB have nzl: "bitvector AND 7 \<noteq> 0" by simp
    with highc have l: "int (drop_bit 3 c) = int (length bv)" by (simp add: hi_def)
    from False lowc have cl: "c AND 7 \<noteq> 0" by simp
    show ?thesis
    proof (cases "bv = []")
      case True
      with empty over have d0: "drop_bit 3 B = 0" by simp
      from True l have "drop_bit 3 c = 0" by simp
      from unpack_bitvector_noread [OF cl this, of cs "bv @ rest"] True
      have "unpack_bitvector cs c (bv @ rest) = Inr (B AND 7, rest)"
        by (simp add: lowc)
      moreover from low_high_nat [of B, unfolded d0] have "B AND 7 = B"
        by (simp only: push_bit_of_0 or.right_neutral)
      ultimately show ?thesis by (simp only:)
    next
      case ne: False
      with l have dn: "drop_bit 3 c \<noteq> 0" by auto
      from dec over l cl
      have "deserialize_leint cs (bv @ rest)
              (int (if c AND 7 = 0 then drop_bit 3 c + 1 else drop_bit 3 c)) =
            Some (drop_bit 3 B, rest)"
        by simp
      from unpack_bitvector_read [OF this] dn
      have "unpack_bitvector cs c (bv @ rest) = Inr ((c AND 7) OR push_bit 3 (drop_bit 3 B), rest)"
        by (simp only: simp_thms)
      then show ?thesis by (simp only: lowc low_high_nat)
    qed
  qed
  show ?thesis
  proof (intro conjI impI)
    show "pack_code bitvector bv AND 7 = bitvector AND 7" by (rule low)
    show "drop_bit 3 (pack_code bitvector bv) =
            (if bitvector AND 7 = 0 then int (length bv) - 1 else int (length bv))"
      using high unfolding hi_def .
    show "1 \<le> length bv" if "bitvector AND 7 = 0" using len [OF that] .
    show "0 \<le> pack_code bitvector bv" by (rule code0)
    show "unpack_bitvector cs (nat (pack_code bitvector bv)) (bv @ rest) =
            Inr (nat bitvector, rest)"
      using recover unfolding B_def c_def .
  qed
qed

lemma pack_unpack_bitvector:
  assumes contract: "leint_contract cs"
    and keys: "keys \<noteq> []" "bitvector_of_keys keys 0 = Inr bitvector"
    and enc: "serialize_leint cs (drop_bit 3 bitvector) = Some bv"
  shows "pack_code bitvector bv AND 7 = bitvector AND 7 \<and>
         drop_bit 3 (pack_code bitvector bv) =
           (if bitvector AND 7 = 0 then int (length bv) - 1 else int (length bv)) \<and>
         (bitvector AND 7 = 0 \<longrightarrow> 1 \<le> length bv) \<and>
         0 \<le> pack_code bitvector bv \<and>
         unpack_bitvector cs (nat (pack_code bitvector bv)) (bv @ rest) =
           Inr (nat bitvector, rest)"
proof -
  from bitvector_of_keys_nonneg [OF keys(2)] have nonneg: "0 \<le> bitvector" "\<forall>k\<in>set keys. 0 \<le> k"
    by simp_all
  from bitvector_of_keys_nonzero [OF nonneg(2) keys] have nz: "bitvector \<noteq> 0" .
  from contract enc have dec:
    "deserialize_leint cs (bv @ rest) (int (length bv)) = Some (nat (drop_bit 3 bitvector), rest)"
    and empty: "bv = [] \<Longrightarrow> drop_bit 3 bitvector = 0"
    unfolding leint_contract_def by blast+
  have nonempty: "bv \<noteq> []" if "bitvector AND 7 = 0"
    using low_zero_high_nonzero [OF nz that] empty by blast
  from nonneg(1) dec empty nonempty show ?thesis by (rule unpack_pack_code)
qed

text \<open>
  C3. For a non-empty set of output indices with bit vector \<open>bitvector\<close>, and \<open>bv\<close> the
  minimal little-endian bytes of \<open>bitvector >> 3\<close>: the low three bits of \<open>code\<close> are those
  of the bit vector; the bits above hold the length of \<open>bv\<close>, or that length less one when
  the low three bits are all zero, and \<open>bv\<close> is then not empty; \<open>code\<close> is not negative; and
  the steps of \<open>deserialize\<close> (the low bits, the length, that many bytes shifted left by
  three) give the bit vector back and leave the rest of the stream.
\<close>

theorem code_bitvector_exact:
  assumes "leint_contract cs"
    and "keys \<noteq> []"
    and "bitvector_of_keys keys 0 = Inr bitvector"
    and "serialize_leint cs (drop_bit 3 bitvector) = Some bv"
  shows "pack_code bitvector bv AND 7 = bitvector AND 7 \<and>
         drop_bit 3 (pack_code bitvector bv) =
           (if bitvector AND 7 = 0 then int (length bv) - 1 else int (length bv)) \<and>
         (bitvector AND 7 = 0 \<longrightarrow> 1 \<le> length bv) \<and>
         0 \<le> pack_code bitvector bv \<and>
         unpack_bitvector cs (nat (pack_code bitvector bv)) (bv @ rest) =
           Inr (nat bitvector, rest)"
  using assms by (rule pack_unpack_bitvector)

theorem code_bitvector_exact_witness:
  "pack_code 65552 [2, 32] = 8 \<and>
   unpack_bitvector spec_codecs 8 ([2, 32] @ [9]) = Inr (65552, [9]) \<and>
   pack_code 7 [] = 7 \<and>
   unpack_bitvector spec_codecs 7 ([] @ [9]) = Inr (7, [9]) \<and>
   pack_code 1048577 [0, 0, 2] = 25 \<and>
   unpack_bitvector spec_codecs 25 ([0, 0, 2] @ [9]) = Inr (1048577, [9])"
proof -
  have k1: "bitvector_of_keys [4, 16] 0 = Inr 65552"
    and k2: "bitvector_of_keys [0, 1, 2] 0 = Inr 7"
    and k3: "bitvector_of_keys [0, 20] 0 = Inr 1048577"
    by simp_all
  have e1: "serialize_leint spec_codecs (drop_bit 3 65552) = Some [2, 32]"
    and e2: "serialize_leint spec_codecs (drop_bit 3 7) = Some []"
    and e3: "serialize_leint spec_codecs (drop_bit 3 1048577) = Some [0, 0, 2]"
    by (simp_all add: spec_codec_defs drop_bit_eq_div)
  have p: "pack_code 65552 [2, 32] = 8" "pack_code 7 [] = 7" "pack_code 1048577 [0, 0, 2] = 25"
    by (simp_all add: pack_code_def)
  from code_bitvector_exact [OF spec_codecs_contracts(2) _ k1 e1, of "[9]"]
    code_bitvector_exact [OF spec_codecs_contracts(2) _ k2 e2, of "[9]"]
    code_bitvector_exact [OF spec_codecs_contracts(2) _ k3 e3, of "[9]"]
  show ?thesis by (simp add: p)
qed

subsection \<open>The round trip of an UnspentTransaction\<close>

lemma seq_Inr:
  assumes "seq r f = Inr y"
  obtains x where "r = Inr x" "f x = Inr y"
  using assms by (cases r) simp_all

lemma call_Inr: "call r = Inr x \<Longrightarrow> r = Some x"
  by (cases r) simp_all

lemma sd_setitem_last:
  "\<forall>k'\<in>set (map fst d). k' < k \<Longrightarrow> sd_setitem k v d = d @ [(k, v)]"
  by (induction d) auto

lemma fold_sd_setitem_sorted:
  "sorted_wrt (<) (map fst (d @ items)) \<Longrightarrow>
     fold (\<lambda>(k, v) d. sd_setitem k v d) items d = d @ items"
proof (induction items arbitrary: d)
  case Nil
  then show ?case by simp
next
  case (Cons kv items)
  obtain k v where kv: "kv = (k, v)" by (cases kv)
  from Cons.prems have less: "\<forall>k'\<in>set (map fst d). k' < k"
    by (auto simp: kv sorted_wrt_append)
  from Cons.prems have "sorted_wrt (<) (map fst ((d @ [(k, v)]) @ items))"
    by (simp add: kv)
  from Cons.IH [OF this] sd_setitem_last [OF less] show ?case
    by (simp add: kv)
qed

lemma sorteddict_sorted: "sorted_wrt (<) (map fst items) \<Longrightarrow> sorteddict items = items"
  using fold_sd_setitem_sorted [of "[]" items] by (simp add: sorteddict_def)

lemma read_output_written:
  assumes "varint_contract cs" "amount_contract cs" "pickler_contract cs"
    and "compress_amount cs (amount out) = Some c"
    and "serialize_varint cs c = Some r1"
    and "pickler_dumps cs (contract out) = Some r2"
  shows "read_output cs (r1 @ r2 @ rest) = Inr (out, rest)"
proof -
  from assms(1,5) have c0: "0 \<le> c"
    and v: "deserialize_varint cs (r1 @ r2 @ rest) = Some (nat c, r2 @ rest)"
    unfolding varint_contract_def by blast+
  from assms(2,4) have a: "decompress_amount cs c = Some (amount out)"
    unfolding amount_contract_def by blast
  from assms(3,6) have p: "pickler_load cs (r2 @ rest) = Some (contract out, rest)"
    unfolding pickler_contract_def by blast
  from c0 v a p show ?thesis by (simp add: read_output_def)
qed


lemma serialize_outputs_Cons:
  assumes "serialize_outputs cs (out # outs) = Inr bs"
  obtains c r1 r2 r where "compress_amount cs (amount out) = Some c"
    "serialize_varint cs c = Some r1" "pickler_dumps cs (contract out) = Some r2"
    "serialize_outputs cs outs = Inr r" "bs = r1 @ r2 @ r"
  using assms by (auto elim!: seq_Inr dest!: call_Inr)

lemma walk_0: "walk cs idx 0 items file = Inr (items, file)"
  by (subst walk.simps) simp

lemma walk_odd:
  assumes "bit b 0" "read_output cs file = Inr (out, file')"
  shows "walk cs idx b items file = walk cs (idx + 1) (b div 2) (items @ [(int idx, out)]) file'"
proof -
  from assms(1) have "b \<noteq> 0" by (cases "b = 0") simp_all
  moreover from assms(1) have "b AND 1 \<noteq> 0"
    by (simp add: and_one_eq bit_0 mod_2_eq_odd)
  ultimately show ?thesis using assms(2)
    by (subst walk.simps) (simp add: drop_bit_eq_div)
qed

lemma walk_even:
  assumes "\<not> bit b 0" "b \<noteq> 0"
  shows "walk cs idx b items file = walk cs (idx + 1) (b div 2) items file"
proof -
  from assms(1) have "b AND 1 = 0"
    by (auto simp: and_one_eq bit_0 mod_2_eq_odd)
  with assms(2) show ?thesis
    by (subst walk.simps) (simp add: drop_bit_eq_div)
qed

lemma walk_written:
  assumes cs: "varint_contract cs" "amount_contract cs" "pickler_contract cs"
  shows "sorted_wrt (<) (map fst es) \<Longrightarrow> \<forall>k\<in>set (map fst es). int idx \<le> k \<Longrightarrow>
         (\<forall>i. bit b i \<longleftrightarrow> int (idx + i) \<in> set (map fst es)) \<Longrightarrow>
         serialize_outputs cs (map snd es) = Inr bs \<Longrightarrow>
         walk cs idx b items (bs @ rest) = Inr (items @ es, rest)"
proof (induction b arbitrary: idx es items bs rule: less_induct)
  case (less b)
  note sorted = less.prems(1) and lower = less.prems(2) and bits = less.prems(3)
    and ser = less.prems(4)
  show ?case
  proof (cases "b = 0")
    case True
    have "es = []"
    proof (rule ccontr)
      assume "es \<noteq> []"
      then obtain k where k: "k \<in> set (map fst es)" by (cases es) auto
      with lower have "int idx \<le> k" by blast
      then have "k = int (idx + nat (k - int idx))" by simp
      with k bits have "bit b (nat (k - int idx))" by metis
      with True show False by simp
    qed
    with ser True show ?thesis by (simp add: walk_0)
  next
    case False
    then have smaller: "b div 2 < b" by simp
    have bits': "bit (b div 2) i \<longleftrightarrow> int (Suc idx + i) \<in> set (map fst es)" for i
      using bits [rule_format, of "Suc i"] by (simp add: bit_Suc)
    show ?thesis
    proof (cases "bit b 0")
      case True
      with bits have mem: "int idx \<in> set (map fst es)" by (metis add.right_neutral)
      then obtain kv es' where es: "es = kv # es'" by (cases es) auto
      obtain k out where kv: "kv = (k, out)" by (cases kv)
      have k: "k = int idx"
      proof (rule ccontr)
        assume "k \<noteq> int idx"
        with mem have "int idx \<in> set (map fst es')" by (simp add: es kv)
        with sorted have "k < int idx" by (auto simp: es kv)
        moreover from lower have "int idx \<le> k" by (simp add: es kv)
        ultimately show False by simp
      qed
      from ser have "serialize_outputs cs (out # map snd es') = Inr bs"
        by (simp only: es kv list.map snd_conv)
      then obtain c r1 r2 r where w: "compress_amount cs (amount out) = Some c"
        "serialize_varint cs c = Some r1" "pickler_dumps cs (contract out) = Some r2"
        "serialize_outputs cs (map snd es') = Inr r" "bs = r1 @ r2 @ r"
        by (rule serialize_outputs_Cons)
      from read_output_written [OF cs w(1,2,3), of "r @ rest"]
      have rd: "read_output cs (bs @ rest) = Inr (out, r @ rest)" by (simp add: w(5))
      from sorted have sorted': "sorted_wrt (<) (map fst es')" by (simp add: es)
      from sorted have lower': "\<forall>k\<in>set (map fst es'). int (Suc idx) \<le> k"
        by (auto simp: es kv k)
      from lower' have "int idx \<notin> set (map fst es')" by auto
      then have bits'': "\<forall>i. bit (b div 2) i \<longleftrightarrow> int (Suc idx + i) \<in> set (map fst es')"
        using bits' by (auto simp: es kv k)
      from less.IH [OF smaller sorted' lower' bits'' w(4), of "items @ [(int idx, out)]"]
      have "walk cs (Suc idx) (b div 2) (items @ [(int idx, out)]) (r @ rest) =
              Inr (items @ es, rest)"
        by (simp add: es kv k)
      with walk_odd [OF True rd, of idx items] show ?thesis by simp
    next
      case odd: False
      with bits have "int idx \<notin> set (map fst es)" by (metis add.right_neutral)
      with lower have lower': "\<forall>k\<in>set (map fst es). int (Suc idx) \<le> k"
        by (metis int_Suc zless_add1_eq linorder_not_less)
      from bits' have bits'': "\<forall>i. bit (b div 2) i \<longleftrightarrow> int (Suc idx + i) \<in> set (map fst es)"
        by blast
      from less.IH [OF smaller sorted lower' bits'' ser, of items]
        walk_even [OF odd False, of cs idx items "bs @ rest"]
      show ?thesis by simp
    qed
  qed
qed


lemma serialize_Inr:
  assumes "serialize cs self = Inr bs"
  obtains bitvector bv r_version r_code r_outputs r_height r_ref where
    "bitvector_of_keys (map fst (entries self)) 0 = Inr bitvector" "bitvector \<noteq> 0"
    "serialize_leint cs (drop_bit 3 bitvector) = Some bv"
    "serialize_varint cs (version self) = Some r_version"
    "serialize_varint cs (pack_code bitvector bv) = Some r_code"
    "serialize_outputs cs (map snd (entries self)) = Inr r_outputs"
    "serialize_varint cs (height self) = Some r_height"
    "version self = 2 \<longrightarrow> serialize_varint cs (reference_height self) = Some r_ref"
    "version self \<noteq> 2 \<longrightarrow> r_ref = []"
    "bs = r_version @ r_code @ bv @ r_outputs @ r_height @ r_ref"
proof -
  from assms obtain bitvector where b: "bitvector_of_keys (map fst (entries self)) 0 = Inr bitvector"
    and nz: "bitvector \<noteq> 0"
    and rest: "seq (call (serialize_leint cs (drop_bit 3 bitvector))) (\<lambda>bv.
      let code = pack_code bitvector bv in
      seq (call (serialize_varint cs (version self))) (\<lambda>r_version.
      seq (call (serialize_varint cs code)) (\<lambda>r_code.
      seq (serialize_outputs cs (map snd (entries self))) (\<lambda>r_outputs.
      seq (call (serialize_varint cs (height self))) (\<lambda>r_height.
      if version self = 2
      then seq (call (serialize_varint cs (reference_height self))) (\<lambda>r_reference_height.
             Inr (r_version @ r_code @ bv @ r_outputs @ r_height @ r_reference_height))
      else Inr (r_version @ r_code @ bv @ r_outputs @ r_height)))))) = Inr bs"
    unfolding serialize_def by (auto elim!: seq_Inr split: if_splits)
  from rest obtain bv r_version r_code r_outputs r_height where
    w: "serialize_leint cs (drop_bit 3 bitvector) = Some bv"
      "serialize_varint cs (version self) = Some r_version"
      "serialize_varint cs (pack_code bitvector bv) = Some r_code"
      "serialize_outputs cs (map snd (entries self)) = Inr r_outputs"
      "serialize_varint cs (height self) = Some r_height"
    and last: "(if version self = 2
      then seq (call (serialize_varint cs (reference_height self))) (\<lambda>r_reference_height.
             Inr (r_version @ r_code @ bv @ r_outputs @ r_height @ r_reference_height))
      else Inr (r_version @ r_code @ bv @ r_outputs @ r_height)) = Inr bs"
    by (auto simp: Let_def elim!: seq_Inr dest!: call_Inr)
  show thesis
  proof (cases "version self = 2")
    case True
    with last obtain r_ref where "serialize_varint cs (reference_height self) = Some r_ref"
      "bs = r_version @ r_code @ bv @ r_outputs @ r_height @ r_ref"
      by (auto elim!: seq_Inr dest!: call_Inr)
    with that [OF b nz w] True show thesis by simp
  next
    case False
    with last have "bs = r_version @ r_code @ bv @ r_outputs @ r_height @ []" by simp
    with that [OF b nz w, of "[]"] False show thesis by simp
  qed
qed

lemma deserialize_steps:
  assumes "deserialize_varint cs file = Some (v, f1)"
    and "deserialize_varint cs f1 = Some (code, f2)"
    and "unpack_bitvector cs code f2 = Inr (b, f3)"
    and "walk cs 0 b [] f3 = Inr (items, f4)"
    and "deserialize_varint cs f4 = Some (h, f5)"
    and "int v = 2 \<longrightarrow> deserialize_varint cs f5 = Some (r, f6)"
    and "int v \<noteq> 2 \<longrightarrow> f6 = f5"
    and "UnspentTransaction_init cs (Some (Items items))
           \<lparr>kw_transaction = None, kw_version = Some (int v), kw_height = Some (int h),
            kw_reference_height = (if int v = 2 then Some (int r) else None)\<rparr> = Inr (obj, fw)"
  shows "deserialize cs file = Inr (obj, f6)"
proof (cases "int v = 2")
  case True
  with assms show ?thesis by (simp add: deserialize_def)
next
  case False
  with assms show ?thesis by (simp add: deserialize_def)
qed

lemma deserialize_stream:
  assumes cs: "varint_contract cs" "amount_contract cs" "pickler_contract cs"
    and sorted: "sorted_wrt (<) (map fst (entries self))"
    and b: "bitvector_of_keys (map fst (entries self)) 0 = Inr bitvector"
    and dec: "\<And>f. deserialize_leint cs (bv @ f) (int (length bv)) =
                Some (nat (drop_bit 3 bitvector), f)"
    and empty: "bv = [] \<Longrightarrow> drop_bit 3 bitvector = 0"
    and nonempty: "bitvector AND 7 = 0 \<Longrightarrow> bv \<noteq> []"
    and w: "serialize_varint cs (version self) = Some r_version"
      "serialize_varint cs (pack_code bitvector bv) = Some r_code"
      "serialize_outputs cs (map snd (entries self)) = Inr r_outputs"
      "serialize_varint cs (height self) = Some r_height"
    and ref2: "version self = 2 \<longrightarrow> serialize_varint cs (reference_height self) = Some r_ref"
    and ref1: "version self \<noteq> 2 \<longrightarrow> r_ref = []"
  shows "deserialize cs (r_version @ r_code @ bv @ r_outputs @ r_height @ r_ref @ rest) =
           Inr (self\<lparr>reference_height :=
                        if version self = 2 then reference_height self else 0\<rparr>, rest)"
proof -
  from bitvector_of_keys_nonneg [OF b] have nonneg: "0 \<le> bitvector"
    "\<forall>k\<in>set (map fst (entries self)). 0 \<le> k" by simp_all
  from bitvector_of_keys_bits [OF nonneg(2), of 0] b
  have bits: "\<And>i. bit bitvector i \<longleftrightarrow> int i \<in> set (map fst (entries self))" by simp
  have d_version: "0 \<le> version self"
    "\<And>f. deserialize_varint cs (r_version @ f) = Some (nat (version self), f)"
    using cs(1) w(1) unfolding varint_contract_def by blast+
  have d_code:
    "\<And>f. deserialize_varint cs (r_code @ f) = Some (nat (pack_code bitvector bv), f)"
    using cs(1) w(2) unfolding varint_contract_def by blast
  have d_bitvector: "unpack_bitvector cs (nat (pack_code bitvector bv)) (bv @ f) =
      Inr (nat bitvector, f)" for f
    using unpack_pack_code [OF nonneg(1) dec empty nonempty, of f] by blast
  have d_walk: "\<And>f. walk cs 0 (nat bitvector) [] (r_outputs @ f) = Inr (entries self, f)"
  proof -
    fix f
    have "\<forall>i. bit (nat bitvector) i \<longleftrightarrow> int (0 + i) \<in> set (map fst (entries self))"
      using bits nonneg(1) by (simp add: bit_nat_iff)
    from walk_written [OF cs sorted _ this w(3), of "[]" f] nonneg(2)
    show "walk cs 0 (nat bitvector) [] (r_outputs @ f) = Inr (entries self, f)" by simp
  qed
  have d_height: "0 \<le> height self"
    "\<And>f. deserialize_varint cs (r_height @ f) = Some (nat (height self), f)"
    using cs(1) w(4) unfolding varint_contract_def by blast+
  have ref: "version self = 2 \<Longrightarrow> 0 \<le> reference_height self"
    "\<And>f. version self = 2 \<Longrightarrow>
       deserialize_varint cs (r_ref @ f) = Some (nat (reference_height self), f)"
    using ref2 cs(1) unfolding varint_contract_def by blast+
  have init: "UnspentTransaction_init cs (Some (Items (entries self)))
      \<lparr>kw_transaction = None, kw_version = Some (int (nat (version self))),
       kw_height = Some (int (nat (height self))),
       kw_reference_height =
         (if int (nat (version self)) = 2 then Some (int (nat (reference_height self)))
          else None)\<rparr> =
      Inr (self\<lparr>reference_height := if version self = 2 then reference_height self else 0\<rparr>,
           [])"
  proof (cases "version self = 2")
    case True
    with ref(1) d_height(1) show ?thesis
      by (simp add: UnspentTransaction_init_def sorteddict_sorted [OF sorted] Let_def)
  next
    case False
    with d_version(1) d_height(1) show ?thesis
      by (simp add: UnspentTransaction_init_def sorteddict_sorted [OF sorted] Let_def)
  qed
  have last: "int (nat (version self)) = 2 \<longrightarrow>
      deserialize_varint cs (r_ref @ rest) = Some (nat (reference_height self), rest)"
    using d_version(1) ref(2) by simp
  have last': "int (nat (version self)) \<noteq> 2 \<longrightarrow> r_ref @ rest = rest"
    using d_version(1) ref1 by simp
  have "deserialize cs (r_version @ r_code @ bv @ r_outputs @ r_height @ r_ref @ rest) =
      Inr (self\<lparr>reference_height := if version self = 2 then reference_height self else 0\<rparr>,
           r_ref @ rest)"
    if "int (nat (version self)) \<noteq> 2"
    using d_version(2) d_code d_bitvector d_walk d_height(2) _ _ init
  proof (rule deserialize_steps)
    show "int (nat (version self)) = 2 \<longrightarrow>
            deserialize_varint cs (r_ref @ rest) = Some (nat (reference_height self), r_ref @ rest)"
      using that by simp
    show "int (nat (version self)) \<noteq> 2 \<longrightarrow> r_ref @ rest = r_ref @ rest" by simp
  qed
  moreover have "deserialize cs (r_version @ r_code @ bv @ r_outputs @ r_height @ r_ref @ rest) =
      Inr (self\<lparr>reference_height := if version self = 2 then reference_height self else 0\<rparr>,
           rest)"
    if "int (nat (version self)) = 2"
    using d_version(2) d_code d_bitvector d_walk d_height(2) last _ init
  proof (rule deserialize_steps)
    show "int (nat (version self)) \<noteq> 2 \<longrightarrow> rest = r_ref @ rest" using that by simp
  qed
  ultimately show ?thesis
    using last' by (cases "int (nat (version self)) = 2") simp_all
qed

lemma deserialize_written:
  assumes cs: "varint_contract cs" "leint_contract cs" "amount_contract cs" "pickler_contract cs"
    and sorted: "sorted_wrt (<) (map fst (entries self))"
    and ser: "serialize cs self = Inr bs"
  shows "deserialize cs (bs @ rest) =
           Inr (self\<lparr>reference_height :=
                        if version self = 2 then reference_height self else 0\<rparr>, rest)"
proof -
  from ser obtain bitvector bv r_version r_code r_outputs r_height r_ref where
    b: "bitvector_of_keys (map fst (entries self)) 0 = Inr bitvector" and nz: "bitvector \<noteq> 0"
    and w: "serialize_leint cs (drop_bit 3 bitvector) = Some bv"
      "serialize_varint cs (version self) = Some r_version"
      "serialize_varint cs (pack_code bitvector bv) = Some r_code"
      "serialize_outputs cs (map snd (entries self)) = Inr r_outputs"
      "serialize_varint cs (height self) = Some r_height"
    and ref2: "version self = 2 \<longrightarrow> serialize_varint cs (reference_height self) = Some r_ref"
    and ref1: "version self \<noteq> 2 \<longrightarrow> r_ref = []"
    and bs: "bs = r_version @ r_code @ bv @ r_outputs @ r_height @ r_ref"
    by (rule serialize_Inr)
  from cs(2) w(1) have dec:
    "\<And>f. deserialize_leint cs (bv @ f) (int (length bv)) = Some (nat (drop_bit 3 bitvector), f)"
    and empty: "bv = [] \<Longrightarrow> drop_bit 3 bitvector = 0"
    unfolding leint_contract_def by blast+
  have nonempty: "bv \<noteq> []" if "bitvector AND 7 = 0"
    using low_zero_high_nonzero [OF nz that] empty by blast
  from deserialize_stream [OF cs(1,3,4) sorted b dec empty nonempty w(2-5) ref2 ref1, of rest]
  show ?thesis by (simp add: bs)
qed

text \<open>
  C1. Round trip. Under the contracts of the codecs, for a mapping whose keys ascend (the
  order in which a sorted dictionary iterates): if \<open>serialize\<close> returns the bytes \<open>bs\<close>,
  then \<open>deserialize\<close> reads exactly these bytes from the stream and returns an object that
  \<open>__eq__\<close> finds equal to the original. It has the same version, the same height and the
  same entries; its reference_height is the original one for version 2, and 0 otherwise.
\<close>

theorem serialize_deserialize_roundtrip:
  assumes "varint_contract cs" "leint_contract cs" "amount_contract cs" "pickler_contract cs"
    and "sorted_wrt (<) (map fst (entries self))"
    and "serialize cs self = Inr bs"
  shows "\<exists>obj. deserialize cs (bs @ rest) = Inr (obj, rest) \<and>
           UnspentTransaction_eq obj self \<and>
           version obj = version self \<and> height obj = height self \<and>
           reference_height obj = (if version self = 2 then reference_height self else 0) \<and>
           entries obj = entries self"
  using deserialize_written [OF assms, of rest]
  by (simp add: UnspentTransaction_eq_def)

theorem serialize_deserialize_roundtrip_witness:
  "serialize spec_codecs
     \<lparr>entries = [(4, \<lparr>amount = 234925952, contract = [118, 169]\<rparr>),
                 (16, \<lparr>amount = 110397, contract = [135]\<rparr>)],
      version = 2, height = 120891, reference_height = 1000\<rparr> =
     Inr [2, 8, 2, 32, 254, 121, 43, 6, 126, 2, 118, 169, 254, 35, 41, 15, 0, 1, 135,
          254, 59, 216, 1, 0, 253, 232, 3] \<and>
   (\<exists>obj. deserialize spec_codecs
            ([2, 8, 2, 32, 254, 121, 43, 6, 126, 2, 118, 169, 254, 35, 41, 15, 0, 1, 135,
              254, 59, 216, 1, 0, 253, 232, 3] @ []) = Inr (obj, []) \<and>
          UnspentTransaction_eq obj
            \<lparr>entries = [(4, \<lparr>amount = 234925952, contract = [118, 169]\<rparr>),
                        (16, \<lparr>amount = 110397, contract = [135]\<rparr>)],
             version = 2, height = 120891, reference_height = 1000\<rparr> \<and>
          reference_height obj = 1000)"
proof -
  have run: "serialize spec_codecs
     \<lparr>entries = [(4, \<lparr>amount = 234925952, contract = [118, 169]\<rparr>),
                 (16, \<lparr>amount = 110397, contract = [135]\<rparr>)],
      version = 2, height = 120891, reference_height = 1000\<rparr> =
     Inr [2, 8, 2, 32, 254, 121, 43, 6, 126, 2, 118, 169, 254, 35, 41, 15, 0, 1, 135,
          254, 59, 216, 1, 0, 253, 232, 3]"
    by (simp add: serialize_def pack_code_def spec_codec_defs drop_bit_eq_div)
  have sorted: "sorted_wrt (<) (map fst (entries
     \<lparr>entries = [(4, \<lparr>amount = 234925952, contract = [118 :: byte, 169]\<rparr>),
                 (16, \<lparr>amount = 110397, contract = [135]\<rparr>)],
      version = 2, height = 120891, reference_height = 1000\<rparr>))"
    by simp
  from serialize_deserialize_roundtrip [OF spec_codecs_contracts(1-4) sorted run, of "[]"]
  show ?thesis by (simp add: run) blast
qed

subsection \<open>The overflow bytes\<close>

lemma serialize_composed:
  assumes "bitvector_of_keys (map fst (entries self)) 0 = Inr bitvector" "bitvector \<noteq> 0"
    and "serialize_leint cs (drop_bit 3 bitvector) = Some bv"
    and "serialize_varint cs (version self) = Some r_version"
    and "serialize_varint cs (pack_code bitvector bv) = Some r_code"
    and "serialize_outputs cs (map snd (entries self)) = Inr r_outputs"
    and "serialize_varint cs (height self) = Some r_height"
    and "version self = 2 \<longrightarrow> serialize_varint cs (reference_height self) = Some r_ref"
    and "version self \<noteq> 2 \<longrightarrow> r_ref = []"
  shows "serialize cs self = Inr (r_version @ r_code @ bv @ r_outputs @ r_height @ r_ref)"
proof (cases "version self = 2")
  case True
  with assms show ?thesis by (simp add: serialize_def)
next
  case False
  with assms show ?thesis by (simp add: serialize_def)
qed

text \<open>
  C9. Let \<open>bv\<close> be what the minimal little-endian encoder returns for \<open>bitvector >> 3\<close>.
  \<open>serialize\<close> writes \<open>bv\<close> itself behind the version and the code, and \<open>bv\<close> has no
  trailing zero byte. \<open>deserialize\<close> makes no demand of minimality: for any other
  non-empty bytes \<open>bv'\<close> that the little-endian decoder reads as the same number (such
  as \<open>bv\<close> followed by zero bytes), written in the place of \<open>bv\<close> behind the code that
  counts them, it returns the same object as for \<open>bv\<close>.
\<close>

theorem overflow_bytes_minimal:
  assumes "varint_contract cs" "leint_contract cs" "amount_contract cs" "pickler_contract cs"
    and "sorted_wrt (<) (map fst (entries self))"
    and "entries self \<noteq> []"
    and "bitvector_of_keys (map fst (entries self)) 0 = Inr bitvector"
    and "serialize_leint cs (drop_bit 3 bitvector) = Some bv"
    and "serialize_varint cs (version self) = Some r_version"
    and "serialize_varint cs (pack_code bitvector bv) = Some r_code"
    and "serialize_outputs cs (map snd (entries self)) = Inr r_outputs"
    and "serialize_varint cs (height self) = Some r_height"
    and "version self = 2 \<longrightarrow> serialize_varint cs (reference_height self) = Some r_ref"
    and "version self \<noteq> 2 \<longrightarrow> r_ref = []"
  shows "serialize cs self = Inr (r_version @ r_code @ bv @ r_outputs @ r_height @ r_ref) \<and>
         (bv \<noteq> [] \<longrightarrow> last bv \<noteq> 0) \<and>
         (\<forall>bv' r_code' rest.
            bv' \<noteq> [] \<and>
            (\<forall>f. deserialize_leint cs (bv' @ f) (int (length bv')) =
                   Some (nat (drop_bit 3 bitvector), f)) \<and>
            serialize_varint cs (pack_code bitvector bv') = Some r_code' \<longrightarrow>
            deserialize cs (r_version @ r_code' @ bv' @ r_outputs @ r_height @ r_ref @ rest) =
              Inr (self\<lparr>reference_height :=
                           if version self = 2 then reference_height self else 0\<rparr>, rest))"
proof (intro conjI allI impI)
  from bitvector_of_keys_nonneg [OF assms(7)]
  have nonneg: "\<forall>k\<in>set (map fst (entries self)). 0 \<le> k" by simp
  from assms(6) have "map fst (entries self) \<noteq> []" by simp
  from bitvector_of_keys_nonzero [OF nonneg this assms(7)] have nz: "bitvector \<noteq> 0" .
  from serialize_composed [OF assms(7) nz assms(8-14)]
  show "serialize cs self = Inr (r_version @ r_code @ bv @ r_outputs @ r_height @ r_ref)" .
next
  assume "bv \<noteq> []"
  with assms(2,8) show "last bv \<noteq> 0" unfolding leint_contract_def by blast
next
  fix bv' r_code' rest
  assume a: "bv' \<noteq> [] \<and>
    (\<forall>f. deserialize_leint cs (bv' @ f) (int (length bv')) =
           Some (nat (drop_bit 3 bitvector), f)) \<and>
    serialize_varint cs (pack_code bitvector bv') = Some r_code'"
  then have dec: "\<And>f. deserialize_leint cs (bv' @ f) (int (length bv')) =
      Some (nat (drop_bit 3 bitvector), f)" by blast
  from a have empty: "bv' = [] \<Longrightarrow> drop_bit 3 bitvector = 0"
    and nonempty: "bitvector AND 7 = 0 \<Longrightarrow> bv' \<noteq> []" by blast+
  from a have code: "serialize_varint cs (pack_code bitvector bv') = Some r_code'" by blast
  from deserialize_stream [OF assms(1,3,4,5,7) dec empty nonempty assms(9) code assms(11-14),
      of rest]
  show "deserialize cs (r_version @ r_code' @ bv' @ r_outputs @ r_height @ r_ref @ rest) =
      Inr (self\<lparr>reference_height :=
                   if version self = 2 then reference_height self else 0\<rparr>, rest)" .
qed

theorem overflow_bytes_minimal_witness:
  "serialize spec_codecs
     \<lparr>entries = [(0, \<lparr>amount = 110397, contract = [118]\<rparr>), (5, \<lparr>amount = 7, contract = []\<rparr>)],
      version = 1, height = 9, reference_height = 0\<rparr> =
     Inr [1, 9, 4, 254, 35, 41, 15, 0, 1, 118, 61, 0, 9] \<and>
   deserialize spec_codecs [1, 17, 4, 0, 254, 35, 41, 15, 0, 1, 118, 61, 0, 9] =
     Inr (\<lparr>entries = [(0, \<lparr>amount = 110397, contract = [118]\<rparr>),
                      (5, \<lparr>amount = 7, contract = []\<rparr>)],
           version = 1, height = 9, reference_height = 0\<rparr>, [])"
proof -
  let ?self = "\<lparr>entries = [(0, \<lparr>amount = 110397, contract = [118 :: byte]\<rparr>),
                           (5, \<lparr>amount = 7, contract = []\<rparr>)],
                version = 1, height = 9, reference_height = 0\<rparr>"
  have h: "sorted_wrt (<) (map fst (entries ?self))" "entries ?self \<noteq> []"
    "bitvector_of_keys (map fst (entries ?self)) 0 = Inr 33"
    "serialize_leint spec_codecs (drop_bit 3 33) = Some [4]"
    "serialize_varint spec_codecs (version ?self) = Some [1]"
    "serialize_varint spec_codecs (pack_code 33 [4]) = Some [9]"
    "serialize_outputs spec_codecs (map snd (entries ?self)) =
       Inr [254, 35, 41, 15, 0, 1, 118, 61, 0]"
    "serialize_varint spec_codecs (height ?self) = Some [9]"
    "version ?self = 2 \<longrightarrow> serialize_varint spec_codecs (reference_height ?self) = Some []"
    "version ?self \<noteq> 2 \<longrightarrow> ([] :: bytes) = []"
    by (simp_all add: spec_codec_defs pack_code_def drop_bit_eq_div)
  have nonminimal: "[4, 0 :: byte] \<noteq> [] \<and>
    (\<forall>f. deserialize_leint spec_codecs ([4, 0] @ f) (int (length [4, 0 :: byte])) =
           Some (nat (drop_bit 3 33), f)) \<and>
    serialize_varint spec_codecs (pack_code 33 [4, 0]) = Some [17]"
    by (simp add: spec_codec_defs pack_code_def drop_bit_eq_div)
  from overflow_bytes_minimal [OF spec_codecs_contracts(1-4) h] nonminimal
  have "serialize spec_codecs ?self = Inr ([1] @ [9] @ [4] @ [254, 35, 41, 15, 0, 1, 118, 61, 0] @ [9] @ [])"
    and "deserialize spec_codecs ([1] @ [17] @ [4, 0] @ [254, 35, 41, 15, 0, 1, 118, 61, 0] @ [9] @ [] @ []) =
      Inr (?self\<lparr>reference_height := if version ?self = 2 then reference_height ?self else 0\<rparr>, [])"
    by blast+
  then show ?thesis by simp
qed

subsection \<open>Reading back an OutputData and a ContractOutPoint\<close>

text \<open>
  C2. What \<open>OutputData.deserialize\<close> makes of the bytes that \<open>OutputData.serialize\<close>
  wrote, under the contracts of the codecs. For version 2 the fourth integer written is
  \<open>(height << 1) | reference_height\<close>, and it is read back as the reference_height
  unchanged. For any other version no reference_height is read, and the constructor of
  the record type, called without this field, raises \<open>TypeError\<close>. So the object read
  back equals the one written only for version 2 and only when
  \<open>(height << 1) | reference_height = reference_height\<close>.
\<close>

theorem deserialize_output_data_written:
  assumes "varint_contract cs" "amount_contract cs"
    and "serialize_output_data cs x = Inr bs"
  shows "deserialize_output_data cs (bs @ rest) =
           (if od_version x = 2
            then Inr (x\<lparr>od_reference_height :=
                         push_bit 1 (od_height x) OR od_reference_height x\<rparr>, rest)
            else Inl TypeError)"
proof -
  from assms(3) obtain p1 p2 c p3 where
    w: "serialize_varint cs (od_version x) = Some p1" "serialize_varint cs (od_height x) = Some p2"
      "compress_amount cs (od_amount x) = Some c" "serialize_varint cs c = Some p3"
    and last: "(if od_version x = 2
      then seq (call (serialize_varint cs (push_bit 1 (od_height x) OR od_reference_height x)))
             (\<lambda>p4. Inr (p1 @ p2 @ p3 @ p4))
      else Inr (p1 @ p2 @ p3)) = Inr bs"
    unfolding serialize_output_data_def by (auto elim!: seq_Inr dest!: call_Inr)
  from assms(1) w(1) have d1: "0 \<le> od_version x"
    "\<And>f. deserialize_varint cs (p1 @ f) = Some (nat (od_version x), f)"
    unfolding varint_contract_def by blast+
  from assms(1) w(2) have d2: "0 \<le> od_height x"
    "\<And>f. deserialize_varint cs (p2 @ f) = Some (nat (od_height x), f)"
    unfolding varint_contract_def by blast+
  from assms(1) w(4) have d3: "0 \<le> c"
    "\<And>f. deserialize_varint cs (p3 @ f) = Some (nat c, f)"
    unfolding varint_contract_def by blast+
  from assms(2) w(3) have d4: "decompress_amount cs c = Some (od_amount x)"
    unfolding amount_contract_def by blast
  show ?thesis
  proof (cases "od_version x = 2")
    case True
    with last obtain p4 where
      p4: "serialize_varint cs (push_bit 1 (od_height x) OR od_reference_height x) = Some p4"
      and bs: "bs = p1 @ p2 @ p3 @ p4"
      by (auto elim!: seq_Inr dest!: call_Inr)
    from assms(1) p4 have d5: "0 \<le> push_bit 1 (od_height x) OR od_reference_height x"
      "\<And>f. deserialize_varint cs (p4 @ f) =
         Some (nat (push_bit 1 (od_height x) OR od_reference_height x), f)"
      unfolding varint_contract_def by blast+
    have "deserialize_output_data cs (p1 @ p2 @ p3 @ p4 @ rest) =
        Inr (\<lparr>od_version = od_version x, od_amount = od_amount x, od_height = od_height x,
              od_reference_height = push_bit 1 (od_height x) OR od_reference_height x\<rparr>, rest)"
      unfolding deserialize_output_data_def
      using True d1(1) d2(1) d3(1) d5(1)
      by (simp add: d1(2) d2(2) d3(2) d4 d5(2) OutputData_new_def)
    with True show ?thesis by (simp add: bs)
  next
    case False
    with last have bs: "bs = p1 @ p2 @ p3" by simp
    from False d1(1) have nv: "nat (od_version x) \<noteq> 2" by linarith
    have "deserialize_output_data cs (p1 @ p2 @ p3 @ rest) = Inl TypeError"
      unfolding deserialize_output_data_def
      using d1(1) d2(1) d3(1)
      by (simp add: d1(2) d2(2) d3(2) d4 nv OutputData_new_def)
    with False show ?thesis by (simp add: bs)
  qed
qed

theorem deserialize_output_data_written_witness:
  "serialize_output_data spec_codecs
     \<lparr>od_version = 2, od_amount = 5, od_height = 1, od_reference_height = 0\<rparr> =
     Inr [2, 1, 41, 2] \<and>
   deserialize_output_data spec_codecs ([2, 1, 41, 2] @ []) =
     Inr (\<lparr>od_version = 2, od_amount = 5, od_height = 1, od_reference_height = 2\<rparr>, []) \<and>
   serialize_output_data spec_codecs
     \<lparr>od_version = 1, od_amount = 5, od_height = 1, od_reference_height = 0\<rparr> =
     Inr [1, 1, 41] \<and>
   deserialize_output_data spec_codecs ([1, 1, 41] @ []) = Inl TypeError"
proof -
  have run2: "serialize_output_data spec_codecs
     \<lparr>od_version = 2, od_amount = 5, od_height = 1, od_reference_height = 0\<rparr> =
     Inr [2, 1, 41, 2]"
    and run1: "serialize_output_data spec_codecs
     \<lparr>od_version = 1, od_amount = 5, od_height = 1, od_reference_height = 0\<rparr> =
     Inr [1, 1, 41]"
    by (simp_all add: serialize_output_data_def spec_codec_defs)
  from deserialize_output_data_written [OF spec_codecs_contracts(1,3) run2, of "[]"]
    deserialize_output_data_written [OF spec_codecs_contracts(1,3) run1, of "[]"]
  show ?thesis by (simp add: run1 run2)
qed

text \<open>
  C7. What \<open>ContractOutPoint.deserialize\<close> makes of the bytes that
  \<open>ContractOutPoint.serialize\<close> wrote, under the contracts of the codecs. The pickler is
  given \<open>contract.serialize()\<close>, not the contract, and what it loads becomes the contract
  of the object read back. Hash and index are those written. So the object read back
  equals the one written only if the contract is its own \<open>serialize()\<close>.
\<close>

theorem deserialize_contract_outpoint_written:
  assumes "varint_contract cs" "pickler_contract cs" "hash_contract cs"
    and "serialize_contract_outpoint cs p = Inr bs"
  shows "\<exists>s. contract_serialize cs (cop_contract p) = Some s \<and>
             deserialize_contract_outpoint cs (bs @ rest) = Inr (p\<lparr>cop_contract := s\<rparr>, rest)"
proof -
  from assms(4) obtain s r_contract r_hash r_index where
    w: "contract_serialize cs (cop_contract p) = Some s" "pickler_dumps cs s = Some r_contract"
      "hash256_serialize cs (cop_hash p) = Some r_hash"
      "serialize_varint cs (cop_index p) = Some r_index"
    and bs: "bs = r_contract @ r_hash @ r_index"
    unfolding serialize_contract_outpoint_def by (auto elim!: seq_Inr dest!: call_Inr)
  from assms(2) w(2) have d1: "\<And>f. pickler_load cs (r_contract @ f) = Some (s, f)"
    unfolding pickler_contract_def by blast
  from assms(3) w(3) have d2:
    "\<And>f. hash256_deserialize cs (r_hash @ f) = Some (cop_hash p, f)"
    unfolding hash_contract_def by blast
  from assms(1) w(4) have d3: "0 \<le> cop_index p"
    "\<And>f. deserialize_varint cs (r_index @ f) = Some (nat (cop_index p), f)"
    unfolding varint_contract_def by blast+
  have "deserialize_contract_outpoint cs (r_contract @ r_hash @ r_index @ rest) =
      Inr (\<lparr>cop_contract = s, cop_hash = cop_hash p, cop_index = cop_index p\<rparr>, rest)"
    unfolding deserialize_contract_outpoint_def
    using d3(1) by (simp add: d1 d2 d3(2) ContractOutPoint_new_def)
  with w(1) show ?thesis by (simp add: bs)
qed

theorem deserialize_contract_outpoint_written_witness:
  "serialize_contract_outpoint spec_codecs
     \<lparr>cop_contract = [118], cop_hash = 258, cop_index = 3\<rparr> =
     Inr ([2, 1, 118] @ [2, 1, 0, 0, 0, 0, 0, 0, 0, 0, 0, 0, 0, 0, 0, 0,
                         0, 0, 0, 0, 0, 0, 0, 0, 0, 0, 0, 0, 0, 0, 0, 0] @ [3]) \<and>
   deserialize_contract_outpoint spec_codecs
     (([2, 1, 118] @ [2, 1, 0, 0, 0, 0, 0, 0, 0, 0, 0, 0, 0, 0, 0, 0,
                      0, 0, 0, 0, 0, 0, 0, 0, 0, 0, 0, 0, 0, 0, 0, 0] @ [3]) @ []) =
     Inr (\<lparr>cop_contract = [1, 118], cop_hash = 258, cop_index = 3\<rparr>, [])"
proof -
  have run: "serialize_contract_outpoint spec_codecs
     \<lparr>cop_contract = [118], cop_hash = 258, cop_index = 3\<rparr> =
     Inr ([2, 1, 118] @ [2, 1, 0, 0, 0, 0, 0, 0, 0, 0, 0, 0, 0, 0, 0, 0,
                         0, 0, 0, 0, 0, 0, 0, 0, 0, 0, 0, 0, 0, 0, 0, 0] @ [3])"
    by (simp add: serialize_contract_outpoint_def spec_codec_defs)
  have s: "contract_serialize spec_codecs (cop_contract
     \<lparr>cop_contract = [118], cop_hash = 258, cop_index = 3\<rparr>) = Some [1, 118]"
    by (simp add: spec_codec_defs)
  from deserialize_contract_outpoint_written [OF spec_codecs_contracts(1,4,5) run, of "[]"] s
  show ?thesis by (simp add: run)
qed

end
